theory Spec2Isabelle
  imports Complex_Main "HOL-Library.Multiset"
begin

section \<open>The integration test of the DynamoDB log store\<close>

text \<open>
  A shallow embedding of \<^verbatim>\<open>storage-dynamodb/integration_tests/dynamodb_logstore.py\<close>.
  The script reads its configuration from the process environment, creates a Delta table,
  starts reader threads and a pool of writer threads against it, and checks the number of
  rows written under the run's identifier.

  Strings are ASCII texts. Everything the script obtains from outside (the environment,
  the random identifier, the random draws, the clock, the behaviour of the store and the
  scan of the DynamoDB table) is a field of the record \<open>world\<close>; the interleaving of
  the threads is a schedule, a list of thread identifiers. The session is taken to be
  created without an exception, and \<^verbatim>\<open>assert\<close> to be enabled.
\<close>

subsection \<open>Errors and outcomes\<close>

text \<open>
  \<open>AssertionError\<close> carries the message of the \<^verbatim>\<open>assert\<close> statement (empty for an
  \<^verbatim>\<open>assert\<close> without a message); \<open>External\<close> is any exception raised inside Spark or
  the store.
\<close>

datatype error =
    ValueError
  | AssertionError string
  | ZeroDivisionError
  | IndexError
  | External string

text \<open>
  How the main thread ends: \<^verbatim>\<open>sys.exit(n)\<close>, the end of the script, or an exception that
  nothing handles.
\<close>

datatype outcome = SysExit int | Completed | Raised error

text \<open>The exit status of the process.\<close>

fun exit_status :: "outcome \<Rightarrow> int" where
  "exit_status (SysExit n) = n"
| "exit_status Completed = 0"
| "exit_status (Raised e) = 1"

subsection \<open>\<^verbatim>\<open>int(str)\<close>\<close>

text \<open>
  Python's \<^verbatim>\<open>int\<close> on a string, base 10: white space around the number is dropped, one
  sign is allowed, and single underscores may separate digits. Anything else raises
  \<^verbatim>\<open>ValueError\<close> (the value \<open>None\<close> here), and so does a number of more than 4300
  digits (the default limit of \<^verbatim>\<open>sys.set_int_max_str_digits\<close>).
\<close>

definition is_space :: "char \<Rightarrow> bool" where
  "is_space c = ((of_char c :: nat) \<in> {9, 10, 11, 12, 13, 32})"

definition is_digit :: "char \<Rightarrow> bool" where
  "is_digit c = (48 \<le> (of_char c :: nat) \<and> (of_char c :: nat) \<le> 57)"

definition digit_val :: "char \<Rightarrow> nat" where
  "digit_val c = (of_char c :: nat) - 48"

text \<open>The flag says that a digit has to come next (at the start and after an underscore).\<close>

fun py_digits :: "bool \<Rightarrow> nat \<Rightarrow> string \<Rightarrow> nat option" where
  "py_digits need acc [] = (if need then None else Some acc)"
| "py_digits need acc (c # cs) =
     (if is_digit c then py_digits False (10 * acc + digit_val c) cs
      else if c = CHR ''_'' \<and> \<not> need then py_digits True acc cs
      else None)"

definition strip :: "string \<Rightarrow> string" where
  "strip s = rev (dropWhile is_space (rev (dropWhile is_space s)))"

definition max_str_digits :: nat where
  "max_str_digits = 4300"

definition py_int :: "string \<Rightarrow> int option" where
  "py_int s =
     (if max_str_digits < length (filter is_digit s) then None
      else
        (case strip s of
           [] \<Rightarrow> None
         | c # cs \<Rightarrow>
             if c = CHR ''-'' then map_option (\<lambda>n. - int n) (py_digits True 0 cs)
             else if c = CHR ''+'' then map_option int (py_digits True 0 cs)
             else map_option int (py_digits True 0 (c # cs))))"

subsection \<open>Configuration (lines 45 to 55)\<close>

text \<open>\<^verbatim>\<open>os.environ\<close>: a variable that is not set maps to \<open>None\<close>.\<close>

type_synonym environ = "string \<rightharpoonup> string"

text \<open>
  The eight module-level settings; \<^verbatim>\<open>delta_table_path\<close> is \<^verbatim>\<open>None\<close> when the
  variable is not set.
\<close>

record conf =
  delta_table_path :: "string option"
  concurrent_writers :: int
  concurrent_readers :: int
  num_rows :: int
  delta_storage :: string
  dynamo_table_name :: string
  dynamo_region :: string
  dynamo_error_rates :: string

text \<open>\<^verbatim>\<open>os.environ.get(k, d)\<close> for a string default.\<close>

definition environ_get :: "environ \<Rightarrow> string \<Rightarrow> string \<Rightarrow> string" where
  "environ_get env k d = (case env k of None \<Rightarrow> d | Some v \<Rightarrow> v)"

text \<open>
  \<^verbatim>\<open>int(os.environ.get(k, d))\<close> for an integer default \<open>d\<close>: the default is an integer
  already, a value found in the environment is a string and is parsed.
\<close>

definition int_environ_get :: "environ \<Rightarrow> string \<Rightarrow> int \<Rightarrow> int option" where
  "int_environ_get env k d = (case env k of None \<Rightarrow> Some d | Some v \<Rightarrow> py_int v)"

text \<open>
  The assignments of lines 46 to 55, in the order of the script. Each \<^verbatim>\<open>int\<close> may raise
  before the later lines run.
\<close>

definition load_conf :: "environ \<Rightarrow> error + conf" where
  "load_conf env =
     (case int_environ_get env ''DELTA_CONCURRENT_WRITERS'' 2 of
        None \<Rightarrow> Inl ValueError
      | Some cw \<Rightarrow>
     (case int_environ_get env ''DELTA_CONCURRENT_READERS'' 2 of
        None \<Rightarrow> Inl ValueError
      | Some cr \<Rightarrow>
     (case int_environ_get env ''DELTA_NUM_ROWS'' 16 of
        None \<Rightarrow> Inl ValueError
      | Some nr \<Rightarrow>
          Inr \<lparr> delta_table_path = env ''DELTA_TABLE_PATH'',
                concurrent_writers = cw,
                concurrent_readers = cr,
                num_rows = nr,
                delta_storage = environ_get env ''DELTA_STORAGE'' ''io.delta.storage.DynamoDBLogStore'',
                dynamo_table_name = environ_get env ''DELTA_DYNAMO_TABLE'' ''delta_log_test'',
                dynamo_region = environ_get env ''DELTA_DYNAMO_REGION'' ''us-west-2'',
                dynamo_error_rates = environ_get env ''DELTA_DYNAMO_ERROR_RATES'' [] \<rparr>)))"

text \<open>The variable \<open>k\<close> is not set, or \<^verbatim>\<open>int\<close> accepts its value.\<close>

definition int_or_unset :: "environ \<Rightarrow> string \<Rightarrow> bool" where
  "int_or_unset env k = (case env k of None \<Rightarrow> True | Some v \<Rightarrow> py_int v \<noteq> None)"

subsection \<open>The table and the store\<close>

text \<open>
  A row of the schema \<^verbatim>\<open>run_id: string, id: int, a: int\<close>. A table is the list of
  the rows a load of \<^verbatim>\<open>delta_table_path\<close> returns, or \<open>None\<close> when nothing is stored at
  that path.
\<close>

type_synonym row = "string \<times> nat \<times> nat"

type_synonym table = "row list option"

text \<open>
  What the script takes from outside:
  \<^item> \<open>os_environ\<close>: the process environment;
  \<^item> \<open>uuid4\<close>: the string \<^verbatim>\<open>str(uuid.uuid4())\<close>;
  \<^item> \<open>draw n\<close>: the random number drawn in transaction \<open>n\<close>;
  \<^item> \<open>time_start\<close>, \<open>time_end\<close>: the two readings of \<^verbatim>\<open>time.time()\<close>, as rationals;
  \<^item> \<open>initial_table\<close>: the table before the script runs;
  \<^item> \<open>save\<close>: what \<^verbatim>\<open>data.write.format("delta").mode("append")...save(path)\<close> does
    with the given rows on the given table, under the configured store class;
  \<^item> \<open>scan_items\<close>: what lines 142 to 150 give, the items of the scan of the DynamoDB
    table or the exception raised on the way.
\<close>

record world =
  os_environ :: environ
  uuid4 :: string
  draw :: "nat \<Rightarrow> nat"
  time_start :: rat
  time_end :: rat
  initial_table :: table
  save :: "row list \<Rightarrow> table \<Rightarrow> error + table"
  scan_items :: "error + string list"

text \<open>
  Modelled from the spec: the append of the store under test (the Delta table behind
  \<^verbatim>\<open>io.delta.storage.DynamoDBLogStore\<close>, not part of the sources given). An append
  creates the table when it is absent and makes exactly the appended rows visible, once each.
\<close>

definition delta_append :: "row list \<Rightarrow> table \<Rightarrow> error + table" where
  "delta_append rs t = Inr (Some ((case t of None \<Rightarrow> [] | Some xs \<Rightarrow> xs) @ rs))"

text \<open>The rows of a table; none when the table is absent.\<close>

definition rows_of :: "table \<Rightarrow> row list" where
  "rows_of t = (case t of None \<Rightarrow> [] | Some xs \<Rightarrow> xs)"

text \<open>\<^verbatim>\<open>random.randrange(2**16)\<close> in transaction \<open>n\<close>: some number below \<open>2 ^ 16\<close>.\<close>

definition randrange :: "world \<Rightarrow> nat \<Rightarrow> nat" where
  "randrange w n = draw w n mod 2 ^ 16"

text \<open>The row of line 97: \<^verbatim>\<open>[RUN_ID, random.randrange(2**16), n]\<close>.\<close>

definition tx_row :: "world \<Rightarrow> nat \<Rightarrow> row" where
  "tx_row w n = (uuid4 w, randrange w n, n)"

text \<open>\<^verbatim>\<open>write_tx(n)\<close>: append that one row.\<close>

definition write_tx :: "world \<Rightarrow> nat \<Rightarrow> table \<Rightarrow> error + table" where
  "write_tx w n t = save w [tx_row w n] t"

text \<open>
  \<^verbatim>\<open>count()\<close>: load the table, keep the rows whose \<^verbatim>\<open>run_id\<close> is \<^verbatim>\<open>RUN_ID\<close>, count
  them. Loading a path that holds no table raises inside Spark.
\<close>

definition count :: "string \<Rightarrow> table \<Rightarrow> error + nat" where
  "count run_id t =
     (case t of
        None \<Rightarrow> Inl (External ''AnalysisException'')
      | Some rows \<Rightarrow> Inr (length (filter (\<lambda>r. fst r = run_id) rows)))"

text \<open>The number of rows that carry the run identifier of \<open>w\<close>.\<close>

definition visible :: "world \<Rightarrow> row list \<Rightarrow> nat" where
  "visible w rows = length (filter (\<lambda>r. fst r = uuid4 w) rows)"

text \<open>No row of the table the script finds carries the run identifier.\<close>

definition fresh :: "world \<Rightarrow> bool" where
  "fresh w = list_all (\<lambda>r. fst r \<noteq> uuid4 w) (rows_of (initial_table w))"

subsection \<open>Output and threads\<close>

text \<open>
  The lines the script prints:
  \<^item> \<open>SkipMessage\<close>: \<^verbatim>\<open>Skipping Python test ... due to the missing env variable\<close>;
  \<^item> \<open>TestLog c\<close>: the \<^verbatim>\<open>--- LOG ---\<close> block with the configuration;
  \<^item> \<open>ReadingRows n\<close>: \<^verbatim>\<open>Reading {cnt} rows ...\<close>;
  \<^item> \<open>WrittenRows n\<close>: \<^verbatim>\<open>Number of written rows: {actual}\<close>;
  \<^item> \<open>TxPerSec v\<close>: \<^verbatim>\<open>{num_rows / t:.02f} tx / sec\<close>, with the quotient not yet rounded;
  \<^item> \<open>LastItem i\<close>: \<^verbatim>\<open>print(items[-1])\<close>.
\<close>

datatype line =
    SkipMessage
  | TestLog conf
  | ReadingRows nat
  | WrittenRows nat
  | TxPerSec rat
  | LastItem string

text \<open>What a thread does to the outside: print, create the session, write, read, sleep.\<close>

datatype action =
    Print line
  | GetOrCreate conf
  | Save "row list"
  | Count "error + nat"
  | Sleep nat

datatype tid = Main | Reader nat | Writer nat

text \<open>
  Where the main thread is, from line 125 on: starting the reader threads, creating the
  pool, reading the clock, \<^verbatim>\<open>pool.map\<close> (putting the tasks, then waiting for them),
  \<^verbatim>\<open>stop_reading.set()\<close>, joining reader \<open>k\<close>, and lines 135 to 151.
\<close>

datatype mpc =
    StartReaders
  | NewPool
  | StartClock
  | Submit
  | Wait
  | SetStop
  | Join nat
  | Conclude
  | Done outcome

text \<open>
  Where a reader thread is in \<^verbatim>\<open>read_data\<close>: at the loop test, at \<^verbatim>\<open>count()\<close>, at
  the \<^verbatim>\<open>print\<close> of the count it got, at \<^verbatim>\<open>time.sleep(1)\<close>, returned, or ended by an
  exception.
\<close>

datatype rpc = Test | Poll | Show nat | Nap | Returned | Died error

fun finished :: "rpc \<Rightarrow> bool" where
  "finished Returned = True"
| "finished (Died e) = True"
| "finished r = False"

text \<open>A pool worker is idle or holds the rest of the chunk of tasks it took.\<close>

datatype wpc = Idle | Busy "nat list"

fun rest :: "wpc \<Rightarrow> nat list" where
  "rest Idle = []"
| "rest (Busy ns) = ns"

text \<open>
  The state the threads share: the table, the event \<^verbatim>\<open>stop_reading\<close>, the position of
  the main thread, of each reader thread and of each pool worker, the chunks of
  \<^verbatim>\<open>pool.map\<close> no worker has taken yet, the first exception a transaction raised, and
  \<^verbatim>\<open>start_t\<close>. Two fields only record history: the transactions whose \<^verbatim>\<open>write_tx\<close>
  has returned, in order, and what the threads have done to the outside.
\<close>

record state =
  table :: table
  stop_reading :: bool
  main :: mpc
  read_threads :: "rpc list"
  pool :: "wpc list"
  taskq :: "nat list list"
  failure :: "error option"
  start_t :: rat
  committed :: "nat list"
  trace :: "(tid \<times> action) list"

subsection \<open>\<^verbatim>\<open>ThreadPool.map\<close>\<close>

text \<open>
  \<^verbatim>\<open>pool.map(f, xs)\<close> cuts \<open>xs\<close> into chunks: \<^verbatim>\<open>chunksize, extra =
  divmod(len(xs), len(pool) * 4)\<close>, one more when \<open>extra\<close> is not zero, and no chunk at
  all for an empty \<open>xs\<close>.
\<close>

definition chunksize :: "nat \<Rightarrow> nat \<Rightarrow> nat" where
  "chunksize len procs =
     (if len = 0 then 0
      else if len mod (procs * 4) \<noteq> 0 then len div (procs * 4) + 1
      else len div (procs * 4))"

text \<open>\<^verbatim>\<open>Pool._get_tasks\<close>: consecutive chunks of \<open>k\<close> elements, the last one shorter.\<close>

function get_tasks :: "nat \<Rightarrow> 'a list \<Rightarrow> 'a list list" where
  "get_tasks k xs =
     (if k = 0 \<or> xs = [] then [] else take k xs # get_tasks k (drop k xs))"
  by pat_completeness auto
termination
  by (relation "measure (\<lambda>(k, xs). length xs)") auto

declare get_tasks.simps [simp del]

subsection \<open>The reader threads (lines 110 to 122)\<close>

text \<open>
  One step of \<^verbatim>\<open>read_data\<close>, given what the thread sees when it takes the step: the
  value of \<^verbatim>\<open>stop_reading.is_set()\<close> and the result of \<^verbatim>\<open>count()\<close>. It returns the
  next position and what the step did.
\<close>

fun read_data_step :: "bool \<Rightarrow> error + nat \<Rightarrow> rpc \<Rightarrow> rpc \<times> action list" where
  "read_data_step is_set cnt Test = (if is_set then Returned else Poll, [])"
| "read_data_step is_set cnt Poll =
     (case cnt of
        Inl e \<Rightarrow> (Died e, [Count (Inl e)])
      | Inr n \<Rightarrow> (Show n, [Count (Inr n)]))"
| "read_data_step is_set cnt (Show n) = (Nap, [Print (ReadingRows n)])"
| "read_data_step is_set cnt Nap = (Test, [Sleep 1])"
| "read_data_step is_set cnt Returned = (Returned, [])"
| "read_data_step is_set cnt (Died e) = (Died e, [])"

text \<open>
  The thread on its own: \<open>obs k\<close> is the stop flag and the table at the time of the
  thread's step \<open>k\<close>. The loop has no bound, so the run is \<open>None\<close> when the thread never
  ends.
\<close>

partial_function (option) read_data ::
  "world \<Rightarrow> (nat \<Rightarrow> bool \<times> table) \<Rightarrow> nat \<Rightarrow> rpc \<Rightarrow> action list \<Rightarrow> (rpc \<times> action list) option"
where
  "read_data w obs k pc acc =
     (if finished pc then Some (pc, acc)
      else
        (case read_data_step (fst (obs k)) (count (uuid4 w) (snd (obs k))) pc of
           (pc', acts) \<Rightarrow> read_data w obs (Suc k) pc' (acc @ acts)))"

text \<open>Reader \<open>i\<close> takes a step in the state shared by all threads.\<close>

definition reader_step :: "world \<Rightarrow> nat \<Rightarrow> state \<Rightarrow> state" where
  "reader_step w i s =
     (if i < length (read_threads s) then
        (case read_data_step (stop_reading s) (count (uuid4 w) (table s)) (read_threads s ! i) of
           (pc', acts) \<Rightarrow>
             s\<lparr>read_threads := (read_threads s)[i := pc'],
               trace := trace s @ map (Pair (Reader i)) acts\<rparr>)
      else s)"

text \<open>What one iteration of the loop of \<^verbatim>\<open>read_data\<close> does when \<^verbatim>\<open>count()\<close> returns \<open>n\<close>.\<close>

definition poll_actions :: "nat \<Rightarrow> action list" where
  "poll_actions n = [Count (Inr n), Print (ReadingRows n), Sleep 1]"

subsection \<open>The pool workers running \<^verbatim>\<open>write_tx\<close> (lines 96 to 98)\<close>

text \<open>
  One step of worker \<open>i\<close>: an idle worker takes the next chunk; a busy one runs
  \<^verbatim>\<open>write_tx\<close> on the next task of its chunk. An exception ends the chunk, and the pool
  keeps the first one. A worker that has run its whole chunk reports and is idle again.
\<close>

definition writer_step :: "world \<Rightarrow> nat \<Rightarrow> state \<Rightarrow> state" where
  "writer_step w i s =
     (if i < length (pool s) then
        (case pool s ! i of
           Idle \<Rightarrow>
             (case taskq s of
                [] \<Rightarrow> s
              | ch # q \<Rightarrow> s\<lparr>pool := (pool s)[i := Busy ch], taskq := q\<rparr>)
         | Busy [] \<Rightarrow> s\<lparr>pool := (pool s)[i := Idle]\<rparr>
         | Busy (n # ns) \<Rightarrow>
             (case write_tx w n (table s) of
                Inl e \<Rightarrow>
                  s\<lparr>pool := (pool s)[i := Idle],
                    failure := (case failure s of None \<Rightarrow> Some e | Some e0 \<Rightarrow> Some e0),
                    trace := trace s @ [(Writer i, Save [tx_row w n])]\<rparr>
              | Inr t \<Rightarrow>
                  s\<lparr>table := t,
                    pool := (pool s)[i := Busy ns],
                    committed := committed s @ [n],
                    trace := trace s @ [(Writer i, Save [tx_row w n])]\<rparr>))
      else s)"

subsection \<open>The main thread (lines 125 to 151)\<close>

text \<open>
  Lines 135 to 151, run when every reader has been joined: the final count, its line, the
  assertion, the elapsed time, the throughput line, and the scan of the DynamoDB table.
\<close>

definition conclude :: "world \<Rightarrow> conf \<Rightarrow> table \<Rightarrow> rat \<Rightarrow> action list \<times> outcome" where
  "conclude w c tbl t0 =
     (case count (uuid4 w) tbl of
        Inl e \<Rightarrow> ([Count (Inl e)], Raised e)
      | Inr actual \<Rightarrow>
          if int actual \<noteq> num_rows c
          then ([Count (Inr actual), Print (WrittenRows actual)], Raised (AssertionError []))
          else
            let t = time_end w - t0 in
            if t = 0
            then ([Count (Inr actual), Print (WrittenRows actual)], Raised ZeroDivisionError)
            else
              (case scan_items w of
                 Inl e \<Rightarrow>
                   ([Count (Inr actual), Print (WrittenRows actual),
                     Print (TxPerSec (of_int (num_rows c) / t))], Raised e)
               | Inr [] \<Rightarrow>
                   ([Count (Inr actual), Print (WrittenRows actual),
                     Print (TxPerSec (of_int (num_rows c) / t))], Raised IndexError)
               | Inr (i # is) \<Rightarrow>
                   ([Count (Inr actual), Print (WrittenRows actual),
                     Print (TxPerSec (of_int (num_rows c) / t)),
                     Print (LastItem (last (i # is)))], Completed)))"

text \<open>No chunk waits and no worker holds one: \<^verbatim>\<open>pool.map\<close> can return.\<close>

definition quiet :: "state \<Rightarrow> bool" where
  "quiet s = (taskq s = [] \<and> list_all (\<lambda>p. p = Idle) (pool s))"

text \<open>
  One step of the main thread. \<^verbatim>\<open>ThreadPool(n)\<close> raises \<^verbatim>\<open>ValueError\<close> for \<open>n < 1\<close>;
  \<^verbatim>\<open>pool.map\<close> raises the first exception of a transaction once every chunk has been
  reported; \<^verbatim>\<open>thread.join()\<close> waits until the thread has ended.
\<close>

definition main_step :: "world \<Rightarrow> conf \<Rightarrow> state \<Rightarrow> state" where
  "main_step w c s =
     (case main s of
        StartReaders \<Rightarrow>
          if int (length (read_threads s)) < concurrent_readers c
          then s\<lparr>read_threads := read_threads s @ [Test]\<rparr>
          else s\<lparr>main := NewPool\<rparr>
      | NewPool \<Rightarrow>
          if concurrent_writers c < 1 then s\<lparr>main := Done (Raised ValueError)\<rparr>
          else s\<lparr>pool := replicate (nat (concurrent_writers c)) Idle, main := StartClock\<rparr>
      | StartClock \<Rightarrow> s\<lparr>start_t := time_start w, main := Submit\<rparr>
      | Submit \<Rightarrow>
          s\<lparr>taskq := get_tasks (chunksize (nat (num_rows c)) (nat (concurrent_writers c)))
                        [0..<nat (num_rows c)],
            main := Wait\<rparr>
      | Wait \<Rightarrow>
          if quiet s
          then (case failure s of
                  None \<Rightarrow> s\<lparr>main := SetStop\<rparr>
                | Some e \<Rightarrow> s\<lparr>main := Done (Raised e)\<rparr>)
          else s
      | SetStop \<Rightarrow> s\<lparr>stop_reading := True, main := Join 0\<rparr>
      | Join k \<Rightarrow>
          if k < length (read_threads s)
          then (if finished (read_threads s ! k) then s\<lparr>main := Join (Suc k)\<rparr> else s)
          else s\<lparr>main := Conclude\<rparr>
      | Conclude \<Rightarrow>
          (case conclude w c (table s) (start_t s) of
             (acts, out) \<Rightarrow>
               s\<lparr>trace := trace s @ map (Pair Main) acts, main := Done out\<rparr>)
      | Done out \<Rightarrow> s)"

subsection \<open>Schedules\<close>

fun step :: "world \<Rightarrow> conf \<Rightarrow> tid \<Rightarrow> state \<Rightarrow> state" where
  "step w c Main s = main_step w c s"
| "step w c (Reader i) s = reader_step w i s"
| "step w c (Writer i) s = writer_step w i s"

text \<open>
  A schedule names the thread that moves next; a thread that cannot move (it does not
  exist, has ended, or waits) leaves the state as it is.
\<close>

definition run :: "world \<Rightarrow> conf \<Rightarrow> tid list \<Rightarrow> state \<Rightarrow> state" where
  "run w c sched s = fold (step w c) sched s"

subsection \<open>The script from line 57 on\<close>

text \<open>The state after lines 58 to 60: the skip message is all that happened.\<close>

definition skip_state :: "world \<Rightarrow> state" where
  "skip_state w =
     \<lparr> table = initial_table w, stop_reading = False, main = Done (SysExit 0),
       read_threads = [], pool = [], taskq = [], failure = None, start_t = 0,
       committed = [], trace = [(Main, Print SkipMessage)] \<rparr>"

text \<open>
  Lines 57 to 93: the skip when \<^verbatim>\<open>DELTA_TABLE_PATH\<close> is missing, the log block, the
  session, and the append of an empty data frame that creates the table.
\<close>

definition startup :: "world \<Rightarrow> conf \<Rightarrow> state" where
  "startup w c =
     (let s0 = \<lparr> table = initial_table w, stop_reading = False, main = StartReaders,
                 read_threads = [], pool = [], taskq = [], failure = None, start_t = 0,
                 committed = [], trace = [] \<rparr>
      in case delta_table_path c of
           None \<Rightarrow> s0\<lparr>main := Done (SysExit 0), trace := [(Main, Print SkipMessage)]\<rparr>
         | Some p \<Rightarrow>
             (case save w [] (initial_table w) of
                Inl e \<Rightarrow>
                  s0\<lparr>main := Done (Raised e),
                     trace := [(Main, Print (TestLog c)), (Main, GetOrCreate c), (Main, Save [])]\<rparr>
              | Inr t \<Rightarrow>
                  s0\<lparr>table := t,
                     trace := [(Main, Print (TestLog c)), (Main, GetOrCreate c), (Main, Save [])]\<rparr>))"

text \<open>
  The whole script under a schedule: \<open>Inl e\<close> when the configuration lines raise, before
  anything is printed; otherwise the state the schedule leads to.
\<close>

definition harness :: "world \<Rightarrow> tid list \<Rightarrow> error + state" where
  "harness w sched =
     (case load_conf (os_environ w) of
        Inl e \<Rightarrow> Inl e
      | Inr c \<Rightarrow> Inr (run w c sched (startup w c)))"

subsection \<open>Phases of the main thread\<close>

text \<open>
  The main thread has not yet put the tasks of \<^verbatim>\<open>pool.map\<close>; \<^verbatim>\<open>pool.map\<close> has
  returned; \<^verbatim>\<open>stop_reading.set()\<close> has run; the main thread has ended.
\<close>

fun before_map :: "mpc \<Rightarrow> bool" where
  "before_map StartReaders = True"
| "before_map NewPool = True"
| "before_map StartClock = True"
| "before_map Submit = True"
| "before_map pc = False"

fun after_map :: "mpc \<Rightarrow> bool" where
  "after_map SetStop = True"
| "after_map (Join k) = True"
| "after_map Conclude = True"
| "after_map pc = False"

fun after_stop :: "mpc \<Rightarrow> bool" where
  "after_stop (Join k) = True"
| "after_stop Conclude = True"
| "after_stop (Done out) = True"
| "after_stop pc = False"

fun is_done :: "mpc \<Rightarrow> bool" where
  "is_done (Done out) = True"
| "is_done pc = False"

subsection \<open>What a trace shows\<close>

text \<open>The throughput lines of a trace, and the counts taken by the main thread.\<close>

fun summary_of :: "tid \<times> action \<Rightarrow> rat list" where
  "summary_of (t, Print (TxPerSec v)) = [v]"
| "summary_of x = []"

definition summary_lines :: "(tid \<times> action) list \<Rightarrow> rat list" where
  "summary_lines tr = concat (map summary_of tr)"

fun final_count_of :: "tid \<times> action \<Rightarrow> (error + nat) list" where
  "final_count_of (Main, Count x) = [x]"
| "final_count_of y = []"

definition final_counts :: "(tid \<times> action) list \<Rightarrow> (error + nat) list" where
  "final_counts tr = concat (map final_count_of tr)"

text \<open>
  The rows the pool workers have handed to the store, in the order of the trace, and the
  transaction numbers (column \<^verbatim>\<open>a\<close>) those rows carry.
\<close>

fun worker_rows_of :: "tid \<times> action \<Rightarrow> row list" where
  "worker_rows_of (Writer i, Save rs) = rs"
| "worker_rows_of x = []"

definition worker_rows :: "(tid \<times> action) list \<Rightarrow> row list" where
  "worker_rows tr = concat (map worker_rows_of tr)"

definition attempts :: "(tid \<times> action) list \<Rightarrow> nat list" where
  "attempts tr = map (\<lambda>r. snd (snd r)) (worker_rows tr)"

text \<open>The number of line 140 before rounding.\<close>

definition throughput :: "world \<Rightarrow> conf \<Rightarrow> rat" where
  "throughput w c = of_int (num_rows c) / (time_end w - time_start w)"


text \<open>The tasks of \<^verbatim>\<open>pool.map\<close> that no worker has run yet.\<close>

definition pending :: "state \<Rightarrow> nat list" where
  "pending s = concat (taskq s) @ concat (map rest (pool s))"

subsection \<open>Invariants of the run\<close>

text \<open>
  Before \<^verbatim>\<open>pool.map\<close> no worker has anything to do; once \<^verbatim>\<open>pool.map\<close> has returned,
  and whenever the stop flag is set, no worker has anything left and none has failed.
\<close>

definition inv_pool :: "state \<Rightarrow> bool" where
  "inv_pool s =
    ((before_map (main s) \<longrightarrow>
        quiet s \<and> committed s = [] \<and> failure s = None \<and> \<not> stop_reading s) \<and>
     (after_map (main s) \<or> stop_reading s \<longrightarrow> quiet s \<and> failure s = None) \<and>
     (stop_reading s \<longrightarrow> after_stop (main s)))"

text \<open>As long as no transaction has failed, each task is either done or still to do.\<close>

definition inv_tasks :: "conf \<Rightarrow> state \<Rightarrow> bool" where
  "inv_tasks c s =
     ((after_map (main s) \<or> main s = Wait \<or> stop_reading s) \<and> failure s = None \<longrightarrow>
        mset (committed s) + mset (pending s) = mset [0..<nat (num_rows c)])"

text \<open>
  The reader threads: never more than \<^verbatim>\<open>concurrent_readers\<close>, all of them once the
  list of line 125 is built; the threads joined so far have ended; a thread has returned
  only if the flag is set.
\<close>

definition inv_readers :: "conf \<Rightarrow> state \<Rightarrow> bool" where
  "inv_readers c s =
     (length (read_threads s) \<le> nat (concurrent_readers c) \<and>
      ((main s \<noteq> StartReaders \<and> \<not> is_done (main s)) \<or> stop_reading s \<longrightarrow>
         length (read_threads s) = nat (concurrent_readers c)) \<and>
      (\<forall>k. main s = Join k \<longrightarrow>
         k \<le> length (read_threads s) \<and> list_all finished (take k (read_threads s))) \<and>
      (main s = Conclude \<or> (stop_reading s \<and> is_done (main s)) \<longrightarrow>
         list_all finished (read_threads s)) \<and>
      ((\<exists>k. main s = Join k) \<or> main s = Conclude \<longrightarrow> stop_reading s) \<and>
      (Returned \<in> set (read_threads s) \<longrightarrow> stop_reading s))"

text \<open>From \<^verbatim>\<open>pool.map\<close> on, \<^verbatim>\<open>start_t\<close> is the first clock reading.\<close>

definition inv_clock :: "world \<Rightarrow> state \<Rightarrow> bool" where
  "inv_clock w s =
     (main s = Submit \<or> main s = Wait \<or> after_map (main s) \<longrightarrow> start_t s = time_start w)"

text \<open>
  No final count and no throughput line before the main thread has ended, at most one of
  each at all, and exactly one of each when the script has completed.
\<close>

definition inv_trace :: "world \<Rightarrow> conf \<Rightarrow> state \<Rightarrow> bool" where
  "inv_trace w c s =
     ((\<not> is_done (main s) \<longrightarrow> summary_lines (trace s) = [] \<and> final_counts (trace s) = []) \<and>
      length (summary_lines (trace s)) \<le> 1 \<and>
      length (final_counts (trace s)) \<le> 1 \<and>
      (final_counts (trace s) \<noteq> [] \<longrightarrow> stop_reading s \<and> is_done (main s)) \<and>
      (main s = Done Completed \<longrightarrow>
         summary_lines (trace s) = [throughput w c] \<and> time_end w \<noteq> time_start w \<and>
         final_counts (trace s) = [Inr (nat (num_rows c))] \<and> 0 \<le> num_rows c))"

definition inv :: "world \<Rightarrow> conf \<Rightarrow> state \<Rightarrow> bool" where
  "inv w c s =
     (inv_pool s \<and> inv_tasks c s \<and> inv_readers c s \<and> inv_clock w s \<and> inv_trace w c s)"

text \<open>
  Under \<open>delta_append\<close>: the table is what was there, then one row for each transaction
  that returned. Every write in the trace is well formed.
\<close>

definition inv_table :: "world \<Rightarrow> state \<Rightarrow> bool" where
  "inv_table w s = (table s = Some (rows_of (initial_table w) @ map (tx_row w) (committed s)))"



section \<open>The commit log store\<close>

text \<open>
  Modelled from the spec: the data model of the Atomic Commit Log Store (sections 3 and 6
  of the specification; its implementation \<^verbatim>\<open>io.delta.storage.DynamoDBLogStore\<close> is
  not among the sources given). A payload is a string of bytes. An object of the store
  is the canonical object of a log and version or a temp object, named by log, version
  and a suffix that no other commit attempt uses. The ledger maps a log and version to
  the temp path of the claim and the flag \<^verbatim>\<open>complete\<close>.
\<close>

type_synonym payload = string

datatype path = Canonical string nat | Temp string nat nat

type_synonym key = "string \<times> nat"

record entry =
  temp_path :: path
  complete :: bool

text \<open>
  Modelled from the spec: the outcomes of \<^verbatim>\<open>commit\<close> and the fatal
  \<^verbatim>\<open>CorruptRecovery\<close> (sections 4.1 and 7).
\<close>

datatype result = Ok | VersionConflict | ServiceUnavailable | CorruptRecovery

text \<open>
  Modelled from the spec: a process is one commit attempt of a writer with its payload
  (section 4.1) or a reader that recovers one version (section 4.2).
\<close>

datatype role = Commits payload | Recovers

text \<open>
  Modelled from the spec: what the channel to an external service does to one call
  (sections 4.1, 4.3 and 6): it works; it fails and says the call was not applied
  (\<open>Refused\<close>, after which the caller tries again, or \<open>Exhausted\<close>, after which it gives
  up); or the outcome is ambiguous, with the call not applied (\<open>Lost\<close>) or applied
  (\<open>Applied\<close>).
\<close>

datatype fault = Reliable | Refused | Exhausted | Lost | Applied

text \<open>
  Modelled from the spec: where a process is. A writer stages its temp object (step 1),
  claims the version (step 2), re-reads the ledger after an ambiguous claim, copies the
  temp object to the canonical path (step 3) and marks the entry complete (step 4). A
  reader looks the entry up and, if it is incomplete, copies and marks as well.
\<close>

datatype cpc =
    Stage
  | Claim
  | Reconcile
  | Look
  | CopyCanonical path
  | MarkComplete
  | Ended result

text \<open>Modelled from the spec: the object store, the ledger, and the position of every process.\<close>

record store =
  objects :: "path \<rightharpoonup> payload"
  ledger :: "key \<rightharpoonup> entry"
  pcs :: "cpc list"

text \<open>Modelled from the spec: the call reaches the service (section 4.3).\<close>

fun applies :: "fault \<Rightarrow> bool" where
  "applies Reliable = True"
| "applies Applied = True"
| "applies f = False"

text \<open>
  Modelled from the spec: the canonical path is a function of log and version (section 3);
  the temp path of attempt \<open>i\<close> carries \<open>i\<close> as its suffix, so that no two attempts share
  one.
\<close>

definition canonical :: "key \<Rightarrow> path" where
  "canonical k = Canonical (fst k) (snd k)"

definition own_temp :: "key \<Rightarrow> nat \<Rightarrow> path" where
  "own_temp k i = Temp (fst k) (snd k) i"

text \<open>
  Modelled from the spec: \<^verbatim>\<open>put(path, bytes, overwrite=false)\<close>,
  \<^verbatim>\<open>putIfAbsent(key, value)\<close> and \<^verbatim>\<open>update(key, complete=true)\<close> as they change the
  service: an existing object or entry is never replaced.
\<close>

definition put_new :: "path \<Rightarrow> payload \<Rightarrow> (path \<rightharpoonup> payload) \<Rightarrow> (path \<rightharpoonup> payload)" where
  "put_new p b os = (case os p of None \<Rightarrow> os(p \<mapsto> b) | Some b' \<Rightarrow> os)"

definition put_if_absent :: "key \<Rightarrow> entry \<Rightarrow> (key \<rightharpoonup> entry) \<Rightarrow> (key \<rightharpoonup> entry)" where
  "put_if_absent k e l = (case l k of None \<Rightarrow> l(k \<mapsto> e) | Some e' \<Rightarrow> l)"

definition set_complete :: "key \<Rightarrow> (key \<rightharpoonup> entry) \<Rightarrow> (key \<rightharpoonup> entry)" where
  "set_complete k l = (case l k of None \<Rightarrow> l | Some e \<Rightarrow> l(k \<mapsto> e\<lparr>complete := True\<rparr>))"

text \<open>
  Modelled from the spec: where a process goes after a call (sections 4.1 and 5): on when
  the call worked, here again to retry, to \<^verbatim>\<open>ServiceUnavailable\<close> when the retries are
  used up, or to the position that handles an ambiguous outcome.
\<close>

definition after_fault :: "fault \<Rightarrow> cpc \<Rightarrow> cpc \<Rightarrow> cpc \<Rightarrow> cpc" where
  "after_fault f here ok unsure =
     (case f of
        Reliable \<Rightarrow> ok
      | Refused \<Rightarrow> here
      | Exhausted \<Rightarrow> Ended ServiceUnavailable
      | Lost \<Rightarrow> unsure
      | Applied \<Rightarrow> unsure)"

text \<open>
  Modelled from the spec: one call of process \<open>i\<close> for the log and version \<open>k\<close>, under
  the fault \<open>f\<close> (section 4.1, steps 1 to 4, and section 4.2). A failed staging is
  \<^verbatim>\<open>ServiceUnavailable\<close>. A claim that finds an entry is \<^verbatim>\<open>VersionConflict\<close>; after
  an ambiguous claim the process re-reads the ledger and has won exactly if the entry
  holds its own temp path. The copy is idempotent: an identical canonical object counts
  as success, a different one is \<^verbatim>\<open>CorruptRecovery\<close>. Marking is best effort.
\<close>

definition proc_step :: "key \<Rightarrow> role \<Rightarrow> nat \<Rightarrow> fault \<Rightarrow> cpc \<Rightarrow> store \<Rightarrow> cpc \<times> store" where
  "proc_step k r i f pc s =
     (case pc of
        Stage \<Rightarrow>
          (case r of
             Recovers \<Rightarrow> (Look, s)
           | Commits b \<Rightarrow>
               (if f = Reliable then Claim else Ended ServiceUnavailable,
                if applies f then s\<lparr>objects := put_new (own_temp k i) b (objects s)\<rparr> else s))
      | Claim \<Rightarrow>
          (after_fault f Claim
             (case ledger s k of None \<Rightarrow> CopyCanonical (own_temp k i) | Some e \<Rightarrow> Ended VersionConflict)
             Reconcile,
           if applies f
           then s\<lparr>ledger := put_if_absent k \<lparr>temp_path = own_temp k i, complete = False\<rparr> (ledger s)\<rparr>
           else s)
      | Reconcile \<Rightarrow>
          (after_fault f Reconcile
             (case ledger s k of
                None \<Rightarrow> Claim
              | Some e \<Rightarrow>
                  if temp_path e = own_temp k i then CopyCanonical (own_temp k i)
                  else Ended VersionConflict)
             Reconcile,
           s)
      | Look \<Rightarrow>
          (after_fault f Look
             (case ledger s k of
                None \<Rightarrow> Ended Ok
              | Some e \<Rightarrow>
                  if complete e \<and> objects s (canonical k) \<noteq> None then Ended Ok
                  else CopyCanonical (temp_path e))
             Look,
           s)
      | CopyCanonical tp \<Rightarrow>
          (case objects s tp of
             None \<Rightarrow> (Ended CorruptRecovery, s)
           | Some b \<Rightarrow>
               (after_fault f (CopyCanonical tp)
                  (case objects s (canonical k) of
                     None \<Rightarrow> MarkComplete
                   | Some b' \<Rightarrow> if b' = b then MarkComplete else Ended CorruptRecovery)
                  (CopyCanonical tp),
                if applies f then s\<lparr>objects := put_new (canonical k) b (objects s)\<rparr> else s))
      | MarkComplete \<Rightarrow>
          (Ended Ok, if applies f then s\<lparr>ledger := set_complete k (ledger s)\<rparr> else s)
      | Ended res \<Rightarrow> (Ended res, s))"

text \<open>
  Modelled from the spec: the processes are independent workers that share nothing but
  the two services (section 5). A schedule names the process that makes the next call and
  the fault of that call.
\<close>

definition commit_step :: "(key \<times> role) list \<Rightarrow> nat \<times> fault \<Rightarrow> store \<Rightarrow> store" where
  "commit_step ps x s =
     (case x of
        (i, f) \<Rightarrow>
          if i < length ps \<and> i < length (pcs s) then
            (case proc_step (fst (ps ! i)) (snd (ps ! i)) i f (pcs s ! i) s of
               (pc', s') \<Rightarrow> s'\<lparr>pcs := (pcs s')[i := pc']\<rparr>)
          else s)"

definition commit_run :: "(key \<times> role) list \<Rightarrow> (nat \<times> fault) list \<Rightarrow> store \<Rightarrow> store" where
  "commit_run ps sched s = fold (commit_step ps) sched s"

text \<open>
  Modelled from the spec: a writer starts by staging, a reader by looking the entry up;
  at first nothing is stored and nothing is claimed.
\<close>

fun first_pc :: "key \<times> role \<Rightarrow> cpc" where
  "first_pc (k, Commits b) = Stage"
| "first_pc (k, Recovers) = Look"

definition empty_store :: "(key \<times> role) list \<Rightarrow> store" where
  "empty_store ps = \<lparr> objects = Map.empty, ledger = Map.empty, pcs = map first_pc ps \<rparr>"

text \<open>
  Invariants: a temp object holds the payload of the attempt it is named after; a ledger
  entry refers to a temp object of its own version that exists; a canonical object holds
  what the temp object of the entry of its version holds.
\<close>

definition temps_ok :: "(key \<times> role) list \<Rightarrow> store \<Rightarrow> bool" where
  "temps_ok ps s =
     (\<forall>l v u b. objects s (Temp l v u) = Some b \<longrightarrow> u < length ps \<and> ps ! u = ((l, v), Commits b))"

definition ledger_ok :: "store \<Rightarrow> bool" where
  "ledger_ok s =
     (\<forall>k e. ledger s k = Some e \<longrightarrow>
        (\<exists>u b. temp_path e = own_temp k u \<and> objects s (own_temp k u) = Some b))"

definition canon_ok :: "store \<Rightarrow> bool" where
  "canon_ok s =
     (\<forall>k b. objects s (canonical k) = Some b \<longrightarrow>
        (\<exists>e. ledger s k = Some e \<and> objects s (temp_path e) = Some b))"

text \<open>The entry of \<open>k\<close> refers to the temp path \<open>tp\<close>; attempt \<open>i\<close> owns the claim of \<open>k\<close>.\<close>

definition holds_claim :: "store \<Rightarrow> key \<Rightarrow> path \<Rightarrow> bool" where
  "holds_claim s k tp = (case ledger s k of None \<Rightarrow> False | Some e \<Rightarrow> temp_path e = tp)"

definition claimed_by :: "store \<Rightarrow> key \<Rightarrow> nat \<Rightarrow> bool" where
  "claimed_by s k i = holds_claim s k (own_temp k i)"

fun is_writer :: "role \<Rightarrow> bool" where
  "is_writer (Commits b) = True"
| "is_writer Recovers = False"

text \<open>
  What the position of a process says about the store: a writer that claims has staged
  its temp object; a process that copies or marks does so for the entry's temp path, and
  a writer only for its own; a writer that ended with \<^verbatim>\<open>Ok\<close> owns the claim; nothing
  ends in \<^verbatim>\<open>CorruptRecovery\<close>.
\<close>

fun pc_ok :: "store \<Rightarrow> key \<Rightarrow> role \<Rightarrow> nat \<Rightarrow> cpc \<Rightarrow> bool" where
  "pc_ok s k r i Stage = True"
| "pc_ok s k r i Claim = (objects s (own_temp k i) \<noteq> None)"
| "pc_ok s k r i Reconcile = (objects s (own_temp k i) \<noteq> None)"
| "pc_ok s k r i Look = (\<not> is_writer r)"
| "pc_ok s k r i (CopyCanonical tp) =
     (holds_claim s k tp \<and> (is_writer r \<longrightarrow> tp = own_temp k i))"
| "pc_ok s k r i MarkComplete = (ledger s k \<noteq> None \<and> (is_writer r \<longrightarrow> claimed_by s k i))"
| "pc_ok s k r i (Ended res) =
     (res \<noteq> CorruptRecovery \<and> (res = Ok \<and> is_writer r \<longrightarrow> claimed_by s k i))"

definition pcs_ok :: "(key \<times> role) list \<Rightarrow> store \<Rightarrow> bool" where
  "pcs_ok ps s =
     (length (pcs s) = length ps \<and>
      (\<forall>i<length ps. pc_ok s (fst (ps ! i)) (snd (ps ! i)) i (pcs s ! i)))"

definition commit_inv :: "(key \<times> role) list \<Rightarrow> store \<Rightarrow> bool" where
  "commit_inv ps s = (temps_ok ps s \<and> ledger_ok s \<and> canon_ok s \<and> pcs_ok ps s)"

text \<open>One store extends another: nothing stored is replaced, and no claim changes hands.\<close>

definition extends :: "store \<Rightarrow> store \<Rightarrow> bool" where
  "extends s s' =
     ((\<forall>p b. objects s p = Some b \<longrightarrow> objects s' p = Some b) \<and>
      (\<forall>k e. ledger s k = Some e \<longrightarrow> (\<exists>e'. ledger s' k = Some e' \<and> temp_path e' = temp_path e)))"

section \<open>Example runs\<close>

text \<open>
  One transaction, one reader and one writer against a store that appends as it should,
  and a schedule that takes the main thread to line 135.
\<close>

definition demo_world :: world where
  "demo_world =
     \<lparr> os_environ = [''DELTA_TABLE_PATH'' \<mapsto> ''s3a://test-bucket/delta-test/'',
                      ''DELTA_NUM_ROWS'' \<mapsto> ''1'',
                      ''DELTA_CONCURRENT_READERS'' \<mapsto> ''1'',
                      ''DELTA_CONCURRENT_WRITERS'' \<mapsto> ''1''],
       uuid4 = ''run-1'', draw = (\<lambda>n. 7), time_start = 10, time_end = 12,
       initial_table = None, save = delta_append, scan_items = Inr [''item''] \<rparr>"

definition demo_conf :: conf where
  "demo_conf =
     \<lparr> delta_table_path = Some ''s3a://test-bucket/delta-test/'',
       concurrent_writers = 1, concurrent_readers = 1, num_rows = 1,
       delta_storage = ''io.delta.storage.DynamoDBLogStore'',
       dynamo_table_name = ''delta_log_test'',
       dynamo_region = ''us-west-2'',
       dynamo_error_rates = [] \<rparr>"

definition demo_sched :: "tid list" where
  "demo_sched =
     [Main, Main, Main, Main, Main, Writer 0, Reader 0, Writer 0, Reader 0, Writer 0,
      Main, Reader 0, Main, Reader 0, Reader 0, Main, Main]"

text \<open>The state that schedule leads to.\<close>

definition demo_state :: state where
  "demo_state =
     \<lparr> table = Some [(''run-1'', 7, 0)], stop_reading = True, main = Conclude,
       read_threads = [Returned], pool = [Idle], taskq = [], failure = None, start_t = 10,
       committed = [0],
       trace = [(Main, Print (TestLog demo_conf)), (Main, GetOrCreate demo_conf),
                (Main, Save []),
                (Writer 0, Save [(''run-1'', 7, 0)]),
                (Reader 0, Count (Inr 1)),
                (Reader 0, Print (ReadingRows 1)),
                (Reader 0, Sleep 1)] \<rparr>"

text \<open>
  Two writer workers (the default) and one transaction, no reader; against a store that
  appends, and against a store that loses every row. The schedule takes the main thread
  to line 135.
\<close>

definition two_writer_world :: world where
  "two_writer_world =
     \<lparr> os_environ = [''DELTA_TABLE_PATH'' \<mapsto> ''s3a://test-bucket/delta-test/'',
                      ''DELTA_NUM_ROWS'' \<mapsto> ''1'',
                      ''DELTA_CONCURRENT_READERS'' \<mapsto> ''0''],
       uuid4 = ''run-1'', draw = (\<lambda>n. 7), time_start = 10, time_end = 12,
       initial_table = None, save = delta_append, scan_items = Inr [''item''] \<rparr>"

definition two_writer_conf :: conf where
  "two_writer_conf =
     \<lparr> delta_table_path = Some ''s3a://test-bucket/delta-test/'',
       concurrent_writers = 2, concurrent_readers = 0, num_rows = 1,
       delta_storage = ''io.delta.storage.DynamoDBLogStore'',
       dynamo_table_name = ''delta_log_test'',
       dynamo_region = ''us-west-2'',
       dynamo_error_rates = [] \<rparr>"

definition lossy_world :: world where
  "lossy_world = two_writer_world\<lparr>save := (\<lambda>rs t. Inr (Some []))\<rparr>"

definition to_line_135 :: "tid list" where
  "to_line_135 = [Main, Main, Main, Main, Writer 1, Writer 1, Writer 1, Main, Main, Main]"

definition two_writer_state :: state where
  "two_writer_state =
     \<lparr> table = Some [(''run-1'', 7, 0)], stop_reading = True, main = Conclude,
       read_threads = [], pool = [Idle, Idle], taskq = [], failure = None, start_t = 10,
       committed = [0],
       trace = [(Main, Print (TestLog two_writer_conf)), (Main, GetOrCreate two_writer_conf),
                (Main, Save []),
                (Writer 1, Save [(''run-1'', 7, 0)])] \<rparr>"

text \<open>
  An environment with a malformed number and no \<^verbatim>\<open>DELTA_TABLE_PATH\<close>; one that only
  lacks \<^verbatim>\<open>DELTA_TABLE_PATH\<close>.
\<close>

definition bad_int_world :: world where
  "bad_int_world = demo_world\<lparr>os_environ := [''DELTA_CONCURRENT_WRITERS'' \<mapsto> ''abc'']\<rparr>"

definition no_path_world :: world where
  "no_path_world = demo_world\<lparr>os_environ := [''DELTA_NUM_ROWS'' \<mapsto> ''16'']\<rparr>"

text \<open>The table holds a row of an earlier run.\<close>

definition old_rows_world :: world where
  "old_rows_world = demo_world\<lparr>initial_table := Some [(''run-0'', 11, 0)]\<rparr>"





text \<open>What a reader sees that finds the flag set at its second loop test.\<close>

definition stop_after_one_poll :: "nat \<Rightarrow> bool \<times> table" where
  "stop_after_one_poll k = (4 \<le> k, Some [(''run-1'', 7, 0)])"

text \<open>
  Two writers race for version 0 of the log \<^verbatim>\<open>t\<close> and a reader recovers it. The
  first writer's claim is applied but reported as failed; the reader's copy comes before
  the writer's own.
\<close>

definition race :: "(key \<times> role) list" where
  "race = [((''t'', 0), Commits ''A''), ((''t'', 0), Commits ''B''), ((''t'', 0), Recovers)]"

definition race_sched :: "(nat \<times> fault) list" where
  "race_sched =
     [(0, Reliable), (1, Reliable), (0, Applied), (1, Reliable), (0, Reliable),
      (2, Reliable), (2, Reliable), (0, Reliable)]"

section \<open>Properties of the integration test\<close>

subsection \<open>Steps of the threads and invariants of the run\<close>

lemma run_invariant:
  assumes "P s" and "\<And>s t. P s \<Longrightarrow> P (step w c t s)"
  shows "P (run w c sched s)"
  using assms(1) unfolding run_def
  by (induction sched arbitrary: s) (simp_all add: assms(2))

lemma quiet_idle: "quiet s \<Longrightarrow> i < length (pool s) \<Longrightarrow> pool s ! i = Idle"
  by (simp add: quiet_def list_all_length)

lemma writer_step_quiet: "quiet s \<Longrightarrow> writer_step w i s = s"
  by (cases "i < length (pool s)") (simp_all add: writer_step_def quiet_idle, simp add: quiet_def)

lemma writer_step_same [simp]:
  "main (writer_step w i s) = main s"
  "stop_reading (writer_step w i s) = stop_reading s"
  "read_threads (writer_step w i s) = read_threads s"
  "start_t (writer_step w i s) = start_t s"
  by (simp_all add: writer_step_def split: wpc.splits list.splits sum.splits)

lemma reader_step_same [simp]:
  "main (reader_step w i s) = main s"
  "stop_reading (reader_step w i s) = stop_reading s"
  "pool (reader_step w i s) = pool s"
  "taskq (reader_step w i s) = taskq s"
  "failure (reader_step w i s) = failure s"
  "committed (reader_step w i s) = committed s"
  "table (reader_step w i s) = table s"
  "start_t (reader_step w i s) = start_t s"
  by (simp_all add: reader_step_def split: prod.splits)

lemma reader_step_quiet [simp]: "quiet (reader_step w i s) = quiet s"
  by (simp add: quiet_def)

lemma inv_pool_writer: "inv_pool s \<Longrightarrow> inv_pool (writer_step w i s)"
proof (cases "quiet s")
  case True
  assume "inv_pool s"
  then show ?thesis using True by (simp add: writer_step_quiet)
next
  case False
  assume "inv_pool s"
  with False have "main s = Wait \<or> (\<exists>out. main s = Done out)" "\<not> stop_reading s"
    by (cases "main s"; auto simp: inv_pool_def)+
  then show ?thesis by (auto simp: inv_pool_def)
qed

lemma inv_pool_reader: "inv_pool s \<Longrightarrow> inv_pool (reader_step w i s)"
  by (simp add: inv_pool_def)

lemma inv_pool_main: "inv_pool s \<Longrightarrow> inv_pool (main_step w c s)"
  by (cases "main s")
    (auto simp: inv_pool_def main_step_def quiet_def list_all_length split: option.splits prod.splits)


lemma concat_get_tasks: "0 < k \<Longrightarrow> concat (get_tasks k xs) = xs"
proof (induction k xs rule: get_tasks.induct)
  case (1 k xs)
  then show ?case by (subst get_tasks.simps) auto
qed

lemma div_pos_of_mod: "0 < (n::nat) \<Longrightarrow> n mod m = 0 \<Longrightarrow> 0 < n div m"
  using div_mult_mod_eq [of n m] by (cases "n div m = 0") auto

lemma chunksize_pos: "0 < len \<Longrightarrow> 0 < chunksize len procs"
  by (simp add: chunksize_def div_pos_of_mod)

lemma get_tasks_Nil: "get_tasks k [] = []"
  by (subst get_tasks.simps) simp

lemma concat_tasks: "concat (get_tasks (chunksize n p) [0..<n]) = [0..<n]"
  by (cases "n = 0") (simp_all add: get_tasks_Nil concat_get_tasks chunksize_pos)

lemma mset_rest_update:
  "i < length ps \<Longrightarrow>
     mset (concat (map rest (ps[i := p]))) + mset (rest (ps ! i)) =
     mset (concat (map rest ps)) + mset (rest p)"
proof (induction ps arbitrary: i)
  case Nil
  then show ?case by simp
next
  case (Cons q ps)
  show ?case
  proof (cases i)
    case 0
    then show ?thesis by simp
  next
    case (Suc j)
    with Cons.prems have "j < length ps" by simp
    from Cons.IH [OF this] show ?thesis using Suc by (simp add: ac_simps)
  qed
qed


lemma quiet_pending: "quiet s \<Longrightarrow> pending s = []"
  by (auto simp: quiet_def pending_def list_all_iff)

lemma inv_tasks_main: "inv_pool s \<Longrightarrow> inv_tasks c s \<Longrightarrow> inv_tasks c (main_step w c s)"
  by (cases "main s")
    (auto simp: inv_pool_def inv_tasks_def main_step_def pending_def concat_tasks quiet_pending
      split: option.splits prod.splits dest: quiet_pending)

lemma inv_tasks_reader: "inv_tasks c s \<Longrightarrow> inv_tasks c (reader_step w i s)"
  by (simp add: inv_tasks_def pending_def)

lemma inv_tasks_writer: "inv_tasks c s \<Longrightarrow> inv_tasks c (writer_step w i s)"
proof (cases "i < length (pool s)")
  case False
  assume "inv_tasks c s"
  then show ?thesis using False by (simp add: writer_step_def)
next
  case True
  assume inv: "inv_tasks c s"
  note upd = mset_rest_update [OF True]
  show ?thesis
  proof (cases "pool s ! i")
    case Idle
    show ?thesis
    proof (cases "taskq s")
      case Nil
      then show ?thesis using inv True Idle by (simp add: writer_step_def)
    next
      case (Cons ch q)
      from upd [of "Busy ch"] Idle
      have "mset (concat (map rest ((pool s)[i := Busy ch]))) = mset (concat (map rest (pool s))) + mset ch"
        by simp
      then show ?thesis using inv True Idle Cons
        by (simp add: writer_step_def inv_tasks_def pending_def ac_simps)
    qed
  next
    case (Busy ns)
    show ?thesis
    proof (cases ns)
      case Nil
      from upd [of Idle] Busy Nil
      have "mset (concat (map rest ((pool s)[i := Idle]))) = mset (concat (map rest (pool s)))"
        by simp
      then show ?thesis using inv True Busy Nil
        by (simp add: writer_step_def inv_tasks_def pending_def)
    next
      case (Cons n ms)
      from upd [of "Busy ms"] Busy Cons
      have "mset (concat (map rest (pool s))) = mset (concat (map rest ((pool s)[i := Busy ms]))) + {#n#}"
        by simp
      then show ?thesis using inv True Busy Cons
        by (auto simp: writer_step_def inv_tasks_def pending_def ac_simps split: sum.splits option.splits)
    qed
  qed
qed

lemma read_data_step_finished: "finished pc \<Longrightarrow> read_data_step f x pc = (pc, [])"
  by (cases pc) simp_all

lemma read_data_step_Returned:
  "read_data_step f x pc = (Returned, acts) \<Longrightarrow> pc = Returned \<or> (pc = Test \<and> f)"
  by (cases pc) (auto split: sum.splits if_splits)

lemma reader_step_length [simp]:
  "length (read_threads (reader_step w i s)) = length (read_threads s)"
  by (simp add: reader_step_def split: prod.splits)

lemma reader_step_finished:
  assumes "list_all finished (take k (read_threads s))"
  shows "list_all finished (take k (read_threads (reader_step w i s)))"
proof -
  have "finished (read_threads (reader_step w i s) ! j)"
    if "j < length (read_threads s)" "finished (read_threads s ! j)" for j
    using that
    by (cases "i = j") (auto simp: reader_step_def read_data_step_finished split: prod.splits)
  with assms show ?thesis
    by (auto simp: list_all_length)
qed

lemma reader_step_finished_all:
  "list_all finished (read_threads s) \<Longrightarrow> list_all finished (read_threads (reader_step w i s))"
  using reader_step_finished [of "length (read_threads s)" s w i] by simp

lemma reader_step_Returned:
  "Returned \<in> set (read_threads (reader_step w i s)) \<Longrightarrow>
     Returned \<in> set (read_threads s) \<or> stop_reading s"
proof (cases "i < length (read_threads s)")
  case False
  assume "Returned \<in> set (read_threads (reader_step w i s))"
  then show ?thesis using False by (simp add: reader_step_def)
next
  case True
  assume a: "Returned \<in> set (read_threads (reader_step w i s))"
  obtain pc' acts where st:
    "read_data_step (stop_reading s) (count (uuid4 w) (table s)) (read_threads s ! i) = (pc', acts)"
    by (cases "read_data_step (stop_reading s) (count (uuid4 w) (table s)) (read_threads s ! i)")
  with True a have "Returned \<in> set ((read_threads s)[i := pc'])"
    by (simp add: reader_step_def)
  then have "Returned \<in> insert pc' (set (read_threads s))"
    using set_update_subset_insert by fastforce
  then have "pc' = Returned \<or> Returned \<in> set (read_threads s)"
    by auto
  then show ?thesis
  proof
    assume "pc' = Returned"
    with st have "read_threads s ! i = Returned \<or> (read_threads s ! i = Test \<and> stop_reading s)"
      by (auto dest: read_data_step_Returned)
    then show ?thesis using True by (auto simp: in_set_conv_nth)
  qed simp
qed

lemma inv_readers_reader:
  assumes "inv_readers c s"
  shows "inv_readers c (reader_step w i s)"
proof -
  let ?s = "reader_step w i s"
  from assms [unfolded inv_readers_def] have
    a1: "length (read_threads s) \<le> nat (concurrent_readers c)" and
    a2: "(main s \<noteq> StartReaders \<and> \<not> is_done (main s)) \<or> stop_reading s \<longrightarrow>
           length (read_threads s) = nat (concurrent_readers c)" and
    a3: "\<forall>k. main s = Join k \<longrightarrow>
           k \<le> length (read_threads s) \<and> list_all finished (take k (read_threads s))" and
    a4: "main s = Conclude \<or> (stop_reading s \<and> is_done (main s)) \<longrightarrow>
           list_all finished (read_threads s)" and
    a5: "(\<exists>k. main s = Join k) \<or> main s = Conclude \<longrightarrow> stop_reading s" and
    a6: "Returned \<in> set (read_threads s) \<longrightarrow> stop_reading s"
    by blast+
  have b3: "\<forall>k. main ?s = Join k \<longrightarrow>
           k \<le> length (read_threads ?s) \<and> list_all finished (take k (read_threads ?s))"
    using a3 by (simp add: reader_step_finished)
  have b4: "main ?s = Conclude \<or> (stop_reading ?s \<and> is_done (main ?s)) \<longrightarrow>
           list_all finished (read_threads ?s)"
    using a4 by (auto intro: reader_step_finished_all)
  have b6: "Returned \<in> set (read_threads ?s) \<longrightarrow> stop_reading ?s"
    using a6 reader_step_Returned [of w i s] by auto
  have b1: "length (read_threads ?s) \<le> nat (concurrent_readers c)"
    using a1 by simp
  have b2: "(main ?s \<noteq> StartReaders \<and> \<not> is_done (main ?s)) \<or> stop_reading ?s \<longrightarrow>
           length (read_threads ?s) = nat (concurrent_readers c)"
    using a2 by simp
  have b5: "(\<exists>k. main ?s = Join k) \<or> main ?s = Conclude \<longrightarrow> stop_reading ?s"
    using a5 by simp
  show ?thesis
    unfolding inv_readers_def using b1 b2 b3 b4 b5 b6 by blast
qed

lemma inv_readers_writer: "inv_readers c (writer_step w i s) = inv_readers c s"
  unfolding inv_readers_def by (simp only: writer_step_same)

lemma take_Suc_finished:
  "k < length rs \<Longrightarrow> list_all finished (take k rs) \<Longrightarrow> finished (rs ! k) \<Longrightarrow>
     list_all finished (take (Suc k) rs)"
  by (simp add: take_Suc_conv_app_nth)

lemma inv_readers_main: "inv_readers c s \<Longrightarrow> inv_pool s \<Longrightarrow> inv_readers c (main_step w c s)"
  by (cases "main s")
    (auto simp: inv_readers_def inv_pool_def main_step_def take_Suc_finished
      split: option.splits prod.splits)

lemma inv_clock_step: "inv_clock w s \<Longrightarrow> inv_clock w (step w c t s)"
proof (cases t)
  case Main
  assume "inv_clock w s"
  then show ?thesis using Main
    by (cases "main s") (auto simp: inv_clock_def main_step_def split: option.splits prod.splits)
qed (simp_all add: inv_clock_def)

lemma summary_lines_append [simp]:
  "summary_lines (xs @ ys) = summary_lines xs @ summary_lines ys"
  by (simp add: summary_lines_def)

lemma final_counts_append [simp]:
  "final_counts (xs @ ys) = final_counts xs @ final_counts ys"
  by (simp add: final_counts_def)

lemma read_data_step_lines [simp]:
  "summary_lines (map (Pair (Reader i)) (snd (read_data_step f x pc))) = []"
  "final_counts (map (Pair (Reader i)) (snd (read_data_step f x pc))) = []"
  by (cases pc; simp add: summary_lines_def final_counts_def split: sum.splits)+

lemma reader_step_lines [simp]:
  "summary_lines (trace (reader_step w i s)) = summary_lines (trace s)"
  "final_counts (trace (reader_step w i s)) = final_counts (trace s)"
proof -
  obtain pc' acts where st:
    "read_data_step (stop_reading s) (count (uuid4 w) (table s)) (read_threads s ! i) = (pc', acts)"
    by (cases "read_data_step (stop_reading s) (count (uuid4 w) (table s)) (read_threads s ! i)")
  from read_data_step_lines [of i "stop_reading s" "count (uuid4 w) (table s)" "read_threads s ! i"]
  have "summary_lines (map (Pair (Reader i)) acts) = []" "final_counts (map (Pair (Reader i)) acts) = []"
    by (simp_all add: st)
  then show "summary_lines (trace (reader_step w i s)) = summary_lines (trace s)"
    "final_counts (trace (reader_step w i s)) = final_counts (trace s)"
    by (simp_all add: reader_step_def st)
qed

lemma writer_step_lines [simp]:
  "summary_lines (trace (writer_step w i s)) = summary_lines (trace s)"
  "final_counts (trace (writer_step w i s)) = final_counts (trace s)"
  by (simp_all add: writer_step_def summary_lines_def final_counts_def
      split: wpc.splits list.splits sum.splits)

lemma inv_trace_reader: "inv_trace w c (reader_step w i s) = inv_trace w c s"
  unfolding inv_trace_def by (simp only: reader_step_lines reader_step_same)

lemma inv_trace_writer: "inv_trace w c (writer_step w i s) = inv_trace w c s"
  unfolding inv_trace_def by (simp only: writer_step_lines writer_step_same)

lemma conclude_lines:
  "conclude w c tbl t0 = (acts, out) \<Longrightarrow>
     length (summary_lines (map (Pair Main) acts)) \<le> 1 \<and>
     length (final_counts (map (Pair Main) acts)) = 1 \<and>
     (out = Completed \<longrightarrow>
        summary_lines (map (Pair Main) acts) = [of_int (num_rows c) / (time_end w - t0)] \<and>
        time_end w \<noteq> t0 \<and>
        final_counts (map (Pair Main) acts) = [Inr (nat (num_rows c))] \<and> 0 \<le> num_rows c)"
  by (auto simp: conclude_def summary_lines_def final_counts_def Let_def
      split: sum.splits if_splits list.splits)

lemma main_step_Conclude:
  "main s = Conclude \<Longrightarrow> conclude w c (table s) (start_t s) = (acts, out) \<Longrightarrow>
     main_step w c s = s\<lparr>trace := trace s @ map (Pair Main) acts, main := Done out\<rparr>"
  by (simp add: main_step_def)

lemma inv_trace_main:
  assumes "inv_trace w c s" "inv_clock w s" "inv_readers c s"
  shows "inv_trace w c (main_step w c s)"
proof (cases "main s = Conclude")
  case True
  obtain acts out where co: "conclude w c (table s) (start_t s) = (acts, out)"
    by (cases "conclude w c (table s) (start_t s)")
  from True assms(2) have t0: "start_t s = time_start w"
    by (simp add: inv_clock_def)
  from True assms(3) have st: "stop_reading s"
    unfolding inv_readers_def by blast
  from True assms(1) have em: "summary_lines (trace s) = []" "final_counts (trace s) = []"
    by (simp_all add: inv_trace_def)
  from conclude_lines [OF co] em st show ?thesis
    by (simp add: inv_trace_def main_step_Conclude [OF True co] t0 throughput_def)
next
  case False
  with assms(1) show ?thesis
    by (cases "main s") (auto simp: inv_trace_def main_step_def split: option.splits)
qed

lemma inv_step: "inv w c s \<Longrightarrow> inv w c (step w c t s)"
proof (cases t)
  case Main
  assume "inv w c s"
  then show ?thesis using Main inv_clock_step [of w s c Main]
    by (simp add: inv_def inv_pool_main inv_tasks_main inv_readers_main inv_trace_main)
next
  case (Reader i)
  assume "inv w c s"
  then show ?thesis using Reader inv_clock_step [of w s c "Reader i"]
    by (simp add: inv_def inv_pool_reader inv_tasks_reader inv_readers_reader inv_trace_reader)
next
  case (Writer i)
  assume "inv w c s"
  then show ?thesis using Writer inv_clock_step [of w s c "Writer i"]
    by (simp add: inv_def inv_pool_writer inv_tasks_writer inv_readers_writer inv_trace_writer)
qed

lemma inv_startup: "inv w c (startup w c)"
  by (simp add: inv_def startup_def inv_pool_def inv_tasks_def inv_readers_def inv_clock_def
      inv_trace_def quiet_def summary_lines_def final_counts_def Let_def
      split: option.splits sum.splits)

lemma inv_run: "inv w c (run w c sched (startup w c))"
  by (rule run_invariant [where P = "inv w c"]) (simp_all add: inv_startup inv_step)

lemma harness_Inr:
  "harness w sched = Inr s \<Longrightarrow>
     \<exists>c. load_conf (os_environ w) = Inr c \<and> s = run w c sched (startup w c)"
  by (auto simp: harness_def split: sum.splits)

lemma harness_inv:
  "harness w sched = Inr s \<Longrightarrow> load_conf (os_environ w) = Inr c \<Longrightarrow> inv w c s"
  using inv_run by (auto simp: harness_def)

lemma reader_step_all_finished:
  assumes "list_all finished (read_threads s)"
  shows "reader_step w i s = s"
proof (cases "i < length (read_threads s)")
  case True
  with assms have "finished (read_threads s ! i)" by (simp add: list_all_length)
  then show ?thesis using True by (simp add: reader_step_def read_data_step_finished)
qed (simp add: reader_step_def)

lemma step_halted:
  "is_done (main s) \<Longrightarrow> quiet s \<Longrightarrow> list_all finished (read_threads s) \<Longrightarrow> step w c t s = s"
  by (cases t; cases "main s") (simp_all add: main_step_def writer_step_quiet reader_step_all_finished)

lemma run_halted:
  "is_done (main s) \<Longrightarrow> quiet s \<Longrightarrow> list_all finished (read_threads s) \<Longrightarrow> run w c sched s = s"
  unfolding run_def by (induction sched) (simp_all add: step_halted)

lemma harness_append:
  "harness w sched = Inr s \<Longrightarrow> load_conf (os_environ w) = Inr c \<Longrightarrow>
     harness w (sched @ later) = Inr (run w c later s)"
  by (auto simp: harness_def run_def)

lemma startup_skip:
  assumes "delta_table_path c = None"
  shows "run w c sched (startup w c) = startup w c"
  by (rule run_halted) (simp_all add: startup_def assms quiet_def)

lemma trace_step: "\<exists>ys. trace (step w c t s) = trace s @ ys"
proof (cases t)
  case Main
  then show ?thesis
    by (cases "main s") (auto simp: main_step_def split: option.splits prod.splits)
next
  case (Reader i)
  then show ?thesis by (auto simp: reader_step_def split: prod.splits)
next
  case (Writer i)
  then show ?thesis
    by (auto simp: writer_step_def split: wpc.splits list.splits sum.splits)
qed

lemma trace_run: "\<exists>ys. trace (run w c sched s) = trace s @ ys"
proof (induction sched arbitrary: s)
  case Nil
  then show ?case by (simp add: run_def)
next
  case (Cons t sched)
  from trace_step [of w c t s] obtain ys where 1: "trace (step w c t s) = trace s @ ys" ..
  from Cons [of "step w c t s"] obtain zs
    where 2: "trace (run w c sched (step w c t s)) = trace (step w c t s) @ zs" ..
  from 1 2 show ?case by (simp add: run_def)
qed

lemma log_in_trace:
  assumes "delta_table_path c = Some p"
  shows "(Main, Print (TestLog c)) \<in> set (trace (run w c sched (startup w c)))"
proof -
  from trace_run [of w c sched "startup w c"] obtain ys
    where "trace (run w c sched (startup w c)) = trace (startup w c) @ ys" ..
  moreover have "(Main, Print (TestLog c)) \<in> set (trace (startup w c))"
    using assms by (simp add: startup_def Let_def split: sum.splits)
  ultimately show ?thesis by simp
qed

lemma Conclude_has_path:
  assumes "main (run w c sched (startup w c)) = Conclude"
  shows "\<exists>p. delta_table_path c = Some p"
proof (cases "delta_table_path c")
  case None
  from startup_skip [OF None, of w sched] assms have "main (startup w c) = Conclude" by simp
  with None show ?thesis by (simp add: startup_def)
qed simp

lemma conclude_step_halts:
  assumes "harness w sched = Inr s" and "load_conf (os_environ w) = Inr c"
    and "main s = Conclude"
  shows "harness w (sched @ Main # later) = Inr (main_step w c s)"
proof -
  from harness_inv [OF assms(1,2)] have
    p: "inv_pool s" and r: "inv_readers c s"
    by (simp_all add: inv_def)
  from p assms(3) have q: "quiet s" by (simp add: inv_pool_def)
  from r assms(3) have f: "list_all finished (read_threads s)"
    unfolding inv_readers_def by blast
  obtain acts out where co: "conclude w c (table s) (start_t s) = (acts, out)"
    by (cases "conclude w c (table s) (start_t s)")
  let ?s = "main_step w c s"
  have "run w c later ?s = ?s"
    by (rule run_halted) (simp_all add: main_step_Conclude [OF assms(3) co] q [unfolded quiet_def] quiet_def f)
  then have "run w c (Main # later) s = ?s" by (simp add: run_def)
  with harness_append [OF assms(1,2)] show ?thesis by simp
qed

lemma load_conf_ok:
  assumes "int_or_unset env ''DELTA_CONCURRENT_WRITERS''"
    and "int_or_unset env ''DELTA_CONCURRENT_READERS''"
    and "int_or_unset env ''DELTA_NUM_ROWS''"
  shows "\<exists>c. load_conf env = Inr c \<and> delta_table_path c = env ''DELTA_TABLE_PATH''"
  using assms
  by (auto simp: load_conf_def int_environ_get_def int_or_unset_def split: option.splits)

lemma inv_table_step:
  assumes "save w = delta_append" and "inv_table w s"
  shows "inv_table w (step w c t s)"
proof (cases t)
  case Main
  with assms(2) show ?thesis
    by (cases "main s") (auto simp: inv_table_def main_step_def split: option.splits prod.splits)
next
  case (Reader i)
  with assms(2) show ?thesis by (simp add: inv_table_def)
next
  case (Writer i)
  with assms show ?thesis
    by (auto simp: inv_table_def writer_step_def write_tx_def delta_append_def
        split: wpc.splits list.splits sum.splits)
qed

lemma count_fresh:
  "fresh w \<Longrightarrow>
     count (uuid4 w) (Some (rows_of (initial_table w) @ map (tx_row w) ns)) = Inr (length ns)"
proof -
  assume "fresh w"
  then have "filter (\<lambda>r. fst r = uuid4 w) (rows_of (initial_table w)) = []"
    by (auto simp: fresh_def list_all_iff filter_empty_conv)
  moreover have "filter (\<lambda>r. fst r = uuid4 w) (map (tx_row w) ns) = map (tx_row w) ns"
    by (induction ns) (simp_all add: tx_row_def)
  ultimately show ?thesis by (simp add: count_def)
qed



subsection \<open>The rows the workers write\<close>

lemma worker_rows_append [simp]:
  "worker_rows (xs @ ys) = worker_rows xs @ worker_rows ys"
  by (simp add: worker_rows_def)

lemma attempts_append [simp]:
  "attempts (xs @ ys) = attempts xs @ attempts ys"
  by (simp add: attempts_def)

lemma worker_rows_main [simp]: "worker_rows (map (Pair Main) acts) = []"
  by (induction acts) (simp_all add: worker_rows_def)

lemma worker_rows_reader [simp]: "worker_rows (map (Pair (Reader i)) acts) = []"
  by (induction acts) (simp_all add: worker_rows_def)

lemma reader_step_rows [simp]:
  "worker_rows (trace (reader_step w i s)) = worker_rows (trace s)"
  by (simp add: reader_step_def split: prod.splits)

lemma main_step_rows [simp]:
  "worker_rows (trace (main_step w c s)) = worker_rows (trace s)"
  by (cases "main s") (simp_all add: main_step_def split: option.splits prod.splits)










subsection \<open>The reader loop\<close>

lemma read_data_unfold:
  "\<not> finished pc \<Longrightarrow>
     read_data_step (fst (obs k)) (count (uuid4 w) (snd (obs k))) pc = (pc', acts) \<Longrightarrow>
     read_data w obs k pc acc = read_data w obs (Suc k) pc' (acc @ acts)"
  by (rule trans [OF read_data.simps]) simp

lemma read_data_stop:
  assumes "fst (obs k)"
  shows "read_data w obs k Test acc = Some (Returned, acc)"
proof -
  have "read_data w obs k Test acc = read_data w obs (Suc k) Returned (acc @ [])"
    by (rule read_data_unfold) (simp_all add: assms)
  also have "\<dots> = Some (Returned, acc)"
    by (rule trans [OF read_data.simps]) simp
  finally show ?thesis .
qed

lemma read_data_iteration:
  assumes "\<not> fst (obs k)" and "snd (obs (Suc k)) = Some rows"
  shows "read_data w obs k Test acc =
           read_data w obs (k + 4) Test (acc @ poll_actions (visible w rows))"
proof -
  let ?n = "visible w rows"
  have "read_data w obs k Test acc = read_data w obs (Suc k) Poll (acc @ [])"
    by (rule read_data_unfold) (simp_all add: assms)
  also have "\<dots> = read_data w obs (Suc (Suc k)) (Show ?n) ((acc @ []) @ [Count (Inr ?n)])"
    by (rule read_data_unfold) (simp_all add: assms count_def visible_def)
  also have "\<dots> = read_data w obs (Suc (Suc (Suc k))) Nap
      (((acc @ []) @ [Count (Inr ?n)]) @ [Print (ReadingRows ?n)])"
    by (rule read_data_unfold) simp_all
  also have "\<dots> = read_data w obs (Suc (Suc (Suc (Suc k)))) Test
      ((((acc @ []) @ [Count (Inr ?n)]) @ [Print (ReadingRows ?n)]) @ [Sleep 1])"
    by (rule read_data_unfold) simp_all
  finally show ?thesis by (simp add: poll_actions_def eval_nat_numeral)
qed

lemma read_data_loop:
  assumes "\<forall>j<m. \<not> fst (obs (k + 4 * j))"
    and "fst (obs (k + 4 * m))"
    and "\<forall>j<m. snd (obs (k + 4 * j + 1)) = Some (rows j)"
  shows "read_data w obs k Test acc =
     Some (Returned, acc @ concat (map (\<lambda>j. poll_actions (visible w (rows j))) [0..<m]))"
  using assms
proof (induction m arbitrary: k acc rows)
  case 0
  then show ?case by (simp add: read_data_stop)
next
  case (Suc m)
  from Suc.prems(1) have a: "\<not> fst (obs k)" by (metis add.right_neutral mult_zero_right zero_less_Suc)
  from Suc.prems(3) have b: "snd (obs (Suc k)) = Some (rows 0)"
    by (metis Suc_eq_plus1 add.right_neutral mult_zero_right zero_less_Suc)
  have 1: "\<forall>j<m. \<not> fst (obs (k + 4 + 4 * j))"
  proof (intro allI impI)
    fix j assume "j < m"
    then have "Suc j < Suc m" by simp
    with Suc.prems(1) have "\<not> fst (obs (k + 4 * Suc j))" by blast
    then show "\<not> fst (obs (k + 4 + 4 * j))" by (simp add: add.assoc)
  qed
  have 2: "fst (obs (k + 4 + 4 * m))"
    using Suc.prems(2) by (simp add: add.assoc)
  have 3: "\<forall>j<m. snd (obs (k + 4 + 4 * j + 1)) = Some ((rows \<circ> Suc) j)"
  proof (intro allI impI)
    fix j assume "j < m"
    then have "Suc j < Suc m" by simp
    with Suc.prems(3) have "snd (obs (k + 4 * Suc j + 1)) = Some (rows (Suc j))" by blast
    then show "snd (obs (k + 4 + 4 * j + 1)) = Some ((rows \<circ> Suc) j)" by (simp add: add.assoc)
  qed
  have "map (\<lambda>j. poll_actions (visible w (rows j))) [0..<Suc m] =
      poll_actions (visible w (rows 0)) # map (\<lambda>j. poll_actions (visible w ((rows \<circ> Suc) j))) [0..<m]"
    by (simp add: upt_conv_Cons map_Suc_upt [symmetric] del: upt_Suc)
  with Suc.IH [OF 1 2 3, of "acc @ poll_actions (visible w (rows 0))"]
    read_data_iteration [OF a b, of w acc]
  show ?case by simp
qed

subsection \<open>The example runs\<close>

lemmas py_int_eval = py_int_def max_str_digits_def strip_def is_space_def is_digit_def digit_val_def

lemma demo_load: "load_conf (os_environ demo_world) = Inr demo_conf"
  by (simp add: demo_world_def demo_conf_def load_conf_def int_environ_get_def environ_get_def
      py_int_eval)

lemma get_tasks_one: "get_tasks (Suc 0) [0::nat] = [[0]]"
  by (simp add: get_tasks.simps)

lemmas step_eval = run_def main_step_def reader_step_def writer_step_def startup_def
  quiet_def count_def write_tx_def tx_row_def randrange_def delta_append_def chunksize_def
  conclude_def

lemma demo_run: "run demo_world demo_conf demo_sched (startup demo_world demo_conf) = demo_state"
  by (simp add: demo_sched_def demo_world_def demo_conf_def demo_state_def step_eval get_tasks_one)

lemma demo_harness: "harness demo_world demo_sched = Inr demo_state"
  by (simp add: harness_def demo_load demo_run)

lemma two_writer_load: "load_conf (os_environ two_writer_world) = Inr two_writer_conf"
  by (simp add: two_writer_world_def two_writer_conf_def load_conf_def int_environ_get_def
      environ_get_def py_int_eval)

lemma lossy_load: "load_conf (os_environ lossy_world) = Inr two_writer_conf"
  using two_writer_load by (simp add: lossy_world_def)

lemma replicate_two: "replicate 2 x = [x, x]" by (simp add: numeral_2_eq_2)


lemma lossy_run:
  "run lossy_world two_writer_conf to_line_135 (startup lossy_world two_writer_conf) =
     two_writer_state\<lparr>table := Some []\<rparr>"
  by (simp add: to_line_135_def lossy_world_def two_writer_world_def two_writer_conf_def
      two_writer_state_def step_eval get_tasks_one replicate_two)


lemma lossy_harness:
  "harness lossy_world to_line_135 = Inr (two_writer_state\<lparr>table := Some []\<rparr>)"
  by (simp add: harness_def lossy_load lossy_run)

lemma demo_final:
  "harness demo_world (demo_sched @ [Main]) =
     Inr (demo_state
       \<lparr>trace := trace demo_state @
          [(Main, Count (Inr 1)), (Main, Print (WrittenRows 1)),
           (Main, Print (TxPerSec (1 / 2))), (Main, Print (LastItem ''item''))],
        main := Done Completed\<rparr>)"
  by (simp add: harness_append [OF demo_harness demo_load])
    (simp add: demo_state_def demo_world_def demo_conf_def step_eval)

lemma old_rows_load: "load_conf (os_environ old_rows_world) = Inr demo_conf"
  using demo_load by (simp add: old_rows_world_def)

lemma old_rows_run:
  "run old_rows_world demo_conf demo_sched (startup old_rows_world demo_conf) =
     demo_state\<lparr>table := Some [(''run-0'', 11, 0), (''run-1'', 7, 0)]\<rparr>"
  by (simp add: old_rows_world_def demo_world_def demo_sched_def demo_conf_def demo_state_def
      step_eval get_tasks_one)

lemma old_rows_harness:
  "harness old_rows_world demo_sched =
     Inr (demo_state\<lparr>table := Some [(''run-0'', 11, 0), (''run-1'', 7, 0)]\<rparr>)"
  by (simp add: harness_def old_rows_load old_rows_run)






section \<open>Properties of the commit log store\<close>

lemma extends_refl [simp]: "extends s s"
  by (simp add: extends_def)

lemma extends_trans: "extends s s' \<Longrightarrow> extends s' s'' \<Longrightarrow> extends s s''"
  unfolding extends_def by fastforce

lemma extends_pcs [simp]: "extends s (s'\<lparr>pcs := x\<rparr>) = extends s s'"
  by (simp add: extends_def)

lemma put_new_keeps: "os p = Some b \<Longrightarrow> put_new q c os p = Some b"
  by (auto simp: put_new_def split: option.splits)

lemma put_if_absent_keeps: "l k = Some e \<Longrightarrow> put_if_absent k' e' l k = Some e"
  by (auto simp: put_if_absent_def split: option.splits)

lemma set_complete_keeps:
  "l k = Some e \<Longrightarrow> \<exists>e'. set_complete k' l k = Some e' \<and> temp_path e' = temp_path e"
  by (auto simp: set_complete_def split: option.splits)

lemma proc_step_extends: "proc_step k r i f pc s = (pc', s') \<Longrightarrow> extends s s'"
  by (cases pc; cases r)
    (auto simp: proc_step_def extends_def put_new_keeps put_if_absent_keeps set_complete_keeps
      split: option.splits if_splits)

lemma proc_step_pcs: "proc_step k r i f pc s = (pc', s') \<Longrightarrow> pcs s' = pcs s"
  by (cases pc; cases r) (auto simp: proc_step_def split: option.splits if_splits)

lemma extends_object: "extends s s' \<Longrightarrow> objects s p = Some b \<Longrightarrow> objects s' p = Some b"
  unfolding extends_def by blast

lemma extends_ledger:
  "extends s s' \<Longrightarrow> ledger s k = Some e \<Longrightarrow> \<exists>e'. ledger s' k = Some e' \<and> temp_path e' = temp_path e"
  unfolding extends_def by blast

lemma extends_claim: "extends s s' \<Longrightarrow> holds_claim s k tp \<Longrightarrow> holds_claim s' k tp"
  unfolding holds_claim_def
  by (cases "ledger s k") (auto dest: extends_ledger)

lemma pc_ok_extends: "extends s s' \<Longrightarrow> pc_ok s k r i pc \<Longrightarrow> pc_ok s' k r i pc"
  by (cases pc)
    (auto simp: claimed_by_def intro: extends_claim dest: extends_object extends_ledger)

lemma proc_step_objects:
  "proc_step k r i f pc s = (pc', s') \<Longrightarrow>
     objects s' = objects s \<or>
     (\<exists>b. r = Commits b \<and> pc = Stage \<and> objects s' = put_new (own_temp k i) b (objects s)) \<or>
     (\<exists>tp b. pc = CopyCanonical tp \<and> objects s tp = Some b \<and>
        objects s' = put_new (canonical k) b (objects s))"
  by (cases pc; cases r) (auto simp: proc_step_def split: option.splits if_splits)

lemma proc_step_ledger:
  "proc_step k r i f pc s = (pc', s') \<Longrightarrow>
     ledger s' = ledger s \<or>
     (pc = Claim \<and>
        ledger s' = put_if_absent k \<lparr>temp_path = own_temp k i, complete = False\<rparr> (ledger s)) \<or>
     (pc = MarkComplete \<and> ledger s' = set_complete k (ledger s))"
  by (cases pc; cases r) (auto simp: proc_step_def split: option.splits if_splits)

lemma temps_ok_step:
  assumes "temps_ok ps s" and "i < length ps"
    and "proc_step (fst (ps ! i)) (snd (ps ! i)) i f pc s = (pc', s')"
  shows "temps_ok ps s'"
proof -
  from proc_step_objects [OF assms(3)] show ?thesis
  proof (elim disjE exE conjE)
    assume "objects s' = objects s"
    with assms(1) show ?thesis by (simp add: temps_ok_def)
  next
    fix b assume "snd (ps ! i) = Commits b"
      and o: "objects s' = put_new (own_temp (fst (ps ! i)) i) b (objects s)"
    then have "ps ! i = ((fst (fst (ps ! i)), snd (fst (ps ! i))), Commits b)"
      by (metis prod.collapse)
    with assms(1,2) o show ?thesis
      by (auto simp: temps_ok_def put_new_def own_temp_def split: option.splits if_splits)
  next
    fix tp b assume "objects s' = put_new (canonical (fst (ps ! i))) b (objects s)"
    with assms(1) show ?thesis
      by (auto simp: temps_ok_def put_new_def canonical_def split: option.splits if_splits)
  qed
qed

lemma ledger_ok_step:
  assumes "ledger_ok s" and "pc_ok s k r i pc" and "proc_step k r i f pc s = (pc', s')"
  shows "ledger_ok s'"
proof -
  note ext = proc_step_extends [OF assms(3)]
  have keep: "\<exists>u b. temp_path e' = own_temp k' u \<and> objects s' (own_temp k' u) = Some b"
    if "ledger s k' = Some e" "temp_path e' = temp_path e" for k' e e'
  proof -
    from assms(1) that(1) obtain u b
      where "temp_path e = own_temp k' u" "objects s (own_temp k' u) = Some b"
      unfolding ledger_ok_def by blast
    with that(2) extends_object [OF ext] show ?thesis by auto
  qed
  from proc_step_ledger [OF assms(3)] show ?thesis
  proof (elim disjE conjE)
    assume "ledger s' = ledger s"
    with keep show ?thesis unfolding ledger_ok_def by metis
  next
    assume pc: "pc = Claim"
      and l: "ledger s' = put_if_absent k \<lparr>temp_path = own_temp k i, complete = False\<rparr> (ledger s)"
    from pc assms(2) obtain b where "objects s (own_temp k i) = Some b" by auto
    with extends_object [OF ext] have b: "objects s' (own_temp k i) = Some b" by blast
    show ?thesis unfolding ledger_ok_def
    proof (intro allI impI)
      fix k' e' assume a: "ledger s' k' = Some e'"
      show "\<exists>u b. temp_path e' = own_temp k' u \<and> objects s' (own_temp k' u) = Some b"
      proof (cases "ledger s k'")
        case (Some e)
        with a l have "e' = e" by (simp add: put_if_absent_def split: option.splits if_splits)
        with keep [OF Some, of e'] show ?thesis by blast
      next
        case None
        with a l have "k' = k" "e' = \<lparr>temp_path = own_temp k i, complete = False\<rparr>"
          by (auto simp: put_if_absent_def split: option.splits if_splits)
        with b show ?thesis by auto
      qed
    qed
  next
    assume l: "ledger s' = set_complete k (ledger s)"
    show ?thesis unfolding ledger_ok_def
    proof (intro allI impI)
      fix k' e' assume a: "ledger s' k' = Some e'"
      with l obtain e where "ledger s k' = Some e" "temp_path e' = temp_path e"
        by (auto simp: set_complete_def split: option.splits if_splits)
      then show "\<exists>u b. temp_path e' = own_temp k' u \<and> objects s' (own_temp k' u) = Some b"
        by (rule keep)
    qed
  qed
qed

lemma canonical_inj: "canonical k' = canonical k \<Longrightarrow> k' = k"
  by (cases k; cases k') (simp add: canonical_def)

lemma canon_ok_step:
  assumes "canon_ok s" and "pc_ok s k r i pc" and "proc_step k r i f pc s = (pc', s')"
  shows "canon_ok s'"
  unfolding canon_ok_def
proof (intro allI impI)
  fix k' b assume a: "objects s' (canonical k') = Some b"
  note ext = proc_step_extends [OF assms(3)]
  show "\<exists>e. ledger s' k' = Some e \<and> objects s' (temp_path e) = Some b"
  proof (cases "objects s (canonical k')")
    case (Some b0)
    with extends_object [OF ext] a have "b0 = b" by fastforce
    with Some assms(1) obtain e where "ledger s k' = Some e" "objects s (temp_path e) = Some b"
      unfolding canon_ok_def by blast
    with extends_ledger [OF ext] extends_object [OF ext] show ?thesis by fastforce
  next
    case None
    from proc_step_objects [OF assms(3)] show ?thesis
    proof (elim disjE exE conjE)
      assume "objects s' = objects s"
      with None a show ?thesis by simp
    next
      fix b1 assume "objects s' = put_new (own_temp k i) b1 (objects s)"
      with None a show ?thesis
        by (auto simp: put_new_def own_temp_def canonical_def split: option.splits if_splits)
    next
      fix tp b1 assume pc: "pc = CopyCanonical tp" and src: "objects s tp = Some b1"
        and o: "objects s' = put_new (canonical k) b1 (objects s)"
      from None a o have k: "k' = k" "b = b1"
        by (auto simp: put_new_def split: option.splits if_splits dest: canonical_inj)
      from pc assms(2) obtain e where e: "ledger s k = Some e" "temp_path e = tp"
        by (auto simp: holds_claim_def split: option.splits)
      from extends_ledger [OF ext e(1)] obtain e' where "ledger s' k = Some e'" "temp_path e' = tp"
        using e(2) by auto
      with extends_object [OF ext src] k show ?thesis by simp
    qed
  qed
qed

lemma copy_source:
  "ledger_ok s \<Longrightarrow> holds_claim s k tp \<Longrightarrow> \<exists>b. objects s tp = Some b"
proof -
  assume a: "ledger_ok s" and h: "holds_claim s k tp"
  from h obtain e where e: "ledger s k = Some e" "temp_path e = tp"
    by (auto simp: holds_claim_def split: option.splits)
  from a e(1) obtain u b where "temp_path e = own_temp k u" "objects s (own_temp k u) = Some b"
    unfolding ledger_ok_def by blast
  with e(2) show ?thesis by auto
qed

lemma copy_same:
  "canon_ok s \<Longrightarrow> holds_claim s k tp \<Longrightarrow> objects s tp = Some b \<Longrightarrow>
     objects s (canonical k) = Some b' \<Longrightarrow> b' = b"
proof -
  assume a: "canon_ok s" and h: "holds_claim s k tp" and b: "objects s tp = Some b"
    and c: "objects s (canonical k) = Some b'"
  from h obtain e where e: "ledger s k = Some e" "temp_path e = tp"
    by (auto simp: holds_claim_def split: option.splits)
  from a c obtain e' where "ledger s k = Some e'" "objects s (temp_path e') = Some b'"
    unfolding canon_ok_def by blast
  with e b show ?thesis by simp
qed

lemma holds_claim_put:
  "ledger s k = None \<Longrightarrow>
     holds_claim (s\<lparr>ledger := put_if_absent k \<lparr>temp_path = tp, complete = False\<rparr> (ledger s)\<rparr>) k tp"
  by (simp add: holds_claim_def put_if_absent_def)

lemma pc_ok_step:
  assumes "ledger_ok s" and "canon_ok s" and "pc_ok s k r i pc"
    and "proc_step k r i f pc s = (pc', s')"
  shows "pc_ok s' k r i pc'"
proof (cases pc)
  case Stage
  with assms(4) show ?thesis
    by (cases r; cases f) (auto simp: proc_step_def put_new_def split: option.splits)
next
  case Claim
  with assms(3,4) show ?thesis
    by (cases f)
      (auto simp: proc_step_def after_fault_def holds_claim_def put_if_absent_def
        split: option.splits)
next
  case Reconcile
  with assms(3,4) show ?thesis
    by (cases f) (auto simp: proc_step_def after_fault_def holds_claim_def split: option.splits)
next
  case Look
  with assms(3,4) show ?thesis
    by (cases f) (auto simp: proc_step_def after_fault_def holds_claim_def split: option.splits)
next
  case (CopyCanonical tp)
  with assms(3) have h: "holds_claim s k tp" "is_writer r \<longrightarrow> tp = own_temp k i" by simp_all
  from copy_source [OF assms(1) h(1)] obtain b where b: "objects s tp = Some b" ..
  from proc_step_extends [OF assms(4)] h(1) have h': "holds_claim s' k tp"
    by (rule extends_claim)
  then have l: "ledger s' k \<noteq> None" by (auto simp: holds_claim_def split: option.splits)
  have same: "objects s (canonical k) = Some b' \<Longrightarrow> b' = b" for b'
    using copy_same [OF assms(2) h(1) b] .
  from assms(4) CopyCanonical b h h' l same show ?thesis
    by (cases f) (auto simp: proc_step_def after_fault_def claimed_by_def split: option.splits)
next
  case MarkComplete
  with assms(3) have h: "is_writer r \<longrightarrow> claimed_by s k i" by simp
  from proc_step_extends [OF assms(4)] have "claimed_by s k i \<Longrightarrow> claimed_by s' k i"
    unfolding claimed_by_def by (rule extends_claim)
  with assms(4) MarkComplete h show ?thesis
    by (auto simp: proc_step_def)
next
  case (Ended res)
  with assms(3,4) show ?thesis by (auto simp: proc_step_def)
qed

lemma commit_inv_step:
  assumes "commit_inv ps s"
  shows "commit_inv ps (commit_step ps x s)"
proof (cases x)
  case (Pair i f)
  show ?thesis
  proof (cases "i < length ps \<and> i < length (pcs s)")
    case False
    with assms Pair show ?thesis by (auto simp: commit_step_def)
  next
    case True
    let ?k = "fst (ps ! i)" and ?r = "snd (ps ! i)"
    obtain pc' s' where st: "proc_step ?k ?r i f (pcs s ! i) s = (pc', s')"
      by (cases "proc_step ?k ?r i f (pcs s ! i) s")
    from assms have t: "temps_ok ps s" and l: "ledger_ok s" and c: "canon_ok s" and p: "pcs_ok ps s"
      by (simp_all add: commit_inv_def)
    from p True have pi: "pc_ok s ?k ?r i (pcs s ! i)" by (simp add: pcs_ok_def)
    note ext = proc_step_extends [OF st]
    have res: "commit_step ps x s = s'\<lparr>pcs := (pcs s)[i := pc']\<rparr>"
      using Pair True st proc_step_pcs [OF st] by (simp add: commit_step_def)
    have 1: "temps_ok ps s'" using temps_ok_step [OF t _ st] True by simp
    have 2: "ledger_ok s'" by (rule ledger_ok_step [OF l pi st])
    have 3: "canon_ok s'" by (rule canon_ok_step [OF c pi st])
    have 4: "pc_ok s' ?k ?r i pc'" by (rule pc_ok_step [OF l c pi st])
    have 5: "pc_ok s' (fst (ps ! j)) (snd (ps ! j)) j (pcs s ! j)" if "j < length ps" for j
      using p that pc_ok_extends [OF ext] by (simp add: pcs_ok_def)
    have pcs_upd: "pc_ok (s'\<lparr>pcs := q\<rparr>) k r j pc = pc_ok s' k r j pc" for q k r j pc
      by (cases pc) (simp_all add: claimed_by_def holds_claim_def)
    have 6: "pcs_ok ps (s'\<lparr>pcs := (pcs s)[i := pc']\<rparr>)"
      using p 4 5 True by (auto simp: pcs_ok_def pcs_upd nth_list_update)
    from 1 2 3 6 show ?thesis
      by (simp add: res commit_inv_def temps_ok_def ledger_ok_def canon_ok_def)
  qed
qed

lemma commit_inv_empty: "commit_inv ps (empty_store ps)"
proof -
  have "pc_ok (empty_store ps) (fst x) (snd x) i (first_pc x)" for x i
    by (cases x; cases "snd x") simp_all
  then show ?thesis
    by (simp add: commit_inv_def empty_store_def temps_ok_def ledger_ok_def canon_ok_def pcs_ok_def)
qed

lemma commit_inv_run: "commit_inv ps s \<Longrightarrow> commit_inv ps (commit_run ps sched s)"
  unfolding commit_run_def
  by (induction sched arbitrary: s) (simp_all add: commit_inv_step)

lemma commit_step_extends: "extends s (commit_step ps x s)"
proof (cases x)
  case (Pair i f)
  obtain pc' s' where st:
    "proc_step (fst (ps ! i)) (snd (ps ! i)) i f (pcs s ! i) s = (pc', s')"
    by (cases "proc_step (fst (ps ! i)) (snd (ps ! i)) i f (pcs s ! i) s")
  from proc_step_extends [OF st] Pair st show ?thesis
    by (simp add: commit_step_def)
qed

lemma commit_run_extends: "extends s (commit_run ps sched s)"
  unfolding commit_run_def
proof (induction sched arbitrary: s)
  case (Cons x sched)
  from extends_trans [OF commit_step_extends [of s ps x] Cons [of "commit_step ps x s"]]
  show ?case by simp
qed simp

lemma own_temp_inj: "own_temp k i = own_temp k j \<Longrightarrow> i = j"
  by (simp add: own_temp_def)

lemma claim_owner:
  assumes "commit_inv ps s" and "ledger s k = Some e"
  shows "\<exists>i b. i < length ps \<and> ps ! i = (k, Commits b) \<and> temp_path e = own_temp k i \<and>
           objects s (own_temp k i) = Some b"
proof -
  from assms obtain u b where u: "temp_path e = own_temp k u" "objects s (own_temp k u) = Some b"
    unfolding commit_inv_def ledger_ok_def by blast
  from assms(1) u(2) have "u < length ps \<and> ps ! u = ((fst k, snd k), Commits b)"
    unfolding commit_inv_def temps_ok_def own_temp_def by blast
  with u show ?thesis by auto
qed

lemma race_eval:
  "ledger (commit_run race race_sched (empty_store race)) (''t'', 0) =
     Some \<lparr>temp_path = Temp ''t'' 0 0, complete = False\<rparr>"
  "objects (commit_run race race_sched (empty_store race)) (canonical (''t'', 0)) = Some ''A''"
  "pcs (commit_run race race_sched (empty_store race)) =
     [MarkComplete, Ended VersionConflict, MarkComplete]"
  by (simp_all add: race_def race_sched_def commit_run_def commit_step_def proc_step_def
      empty_store_def after_fault_def put_new_def put_if_absent_def set_complete_def
      own_temp_def canonical_def)

section \<open>Claims\<close>



text \<open>
  Claim C2. In the commit protocol of the specification, for every set of writers and
  readers, every schedule and every choice of faults: each claimed version belongs to
  one commit attempt, whose payload is staged under the temp path of the claim; the
  canonical object of a version, once it exists, holds the payload of the attempt that
  owns the claim and is never replaced, whatever happens later; no version is owned by
  two attempts; a writer whose commit ended with \<^verbatim>\<open>Ok\<close> owns the claim of its
  version; and no process ever finds a canonical object that differs from the temp
  object it copies.
\<close>

theorem one_payload_per_version:
  assumes "s = commit_run ps sched (empty_store ps)"
  shows "(\<forall>k e. ledger s k = Some e \<longrightarrow>
            (\<exists>i b. i < length ps \<and> ps ! i = (k, Commits b) \<and> temp_path e = own_temp k i \<and>
               objects s (own_temp k i) = Some b)) \<and>
         (\<forall>k b. objects s (canonical k) = Some b \<longrightarrow>
            (\<exists>i. i < length ps \<and> ps ! i = (k, Commits b) \<and> claimed_by s k i) \<and>
            objects (commit_run ps later s) (canonical k) = Some b) \<and>
         (\<forall>k i j. claimed_by s k i \<and> claimed_by s k j \<longrightarrow> i = j) \<and>
         (\<forall>i<length ps. pcs s ! i = Ended Ok \<and> is_writer (snd (ps ! i)) \<longrightarrow>
            claimed_by s (fst (ps ! i)) i) \<and>
         Ended CorruptRecovery \<notin> set (pcs s)"
proof -
  from assms have inv: "commit_inv ps s"
    by (simp add: commit_inv_run commit_inv_empty)
  have 1: "\<exists>i b. i < length ps \<and> ps ! i = (k, Commits b) \<and> temp_path e = own_temp k i \<and>
               objects s (own_temp k i) = Some b" if "ledger s k = Some e" for k e
    using claim_owner [OF inv that] .
  have 2: "(\<exists>i. i < length ps \<and> ps ! i = (k, Commits b) \<and> claimed_by s k i) \<and>
            objects (commit_run ps later s) (canonical k) = Some b"
    if c: "objects s (canonical k) = Some b" for k b
  proof -
    from inv c obtain e where e: "ledger s k = Some e" "objects s (temp_path e) = Some b"
      unfolding commit_inv_def canon_ok_def by blast
    from 1 [OF e(1)] obtain i b' where i: "i < length ps" "ps ! i = (k, Commits b')"
      "temp_path e = own_temp k i" "objects s (own_temp k i) = Some b'" by blast
    with e have "b' = b" "claimed_by s k i" by (simp_all add: claimed_by_def holds_claim_def)
    moreover from extends_object [OF commit_run_extends c]
    have "objects (commit_run ps later s) (canonical k) = Some b" .
    ultimately show ?thesis using i by blast
  qed
  have 3: "i = j" if "claimed_by s k i \<and> claimed_by s k j" for k i j
    using that
    by (auto simp: claimed_by_def holds_claim_def split: option.splits dest: own_temp_inj)
  from inv have p: "pcs_ok ps s" by (simp add: commit_inv_def)
  have 4: "claimed_by s (fst (ps ! i)) i"
    if "i < length ps" "pcs s ! i = Ended Ok \<and> is_writer (snd (ps ! i))" for i
    using p that by (auto simp: pcs_ok_def)
  have 5: "Ended CorruptRecovery \<notin> set (pcs s)"
  proof
    assume "Ended CorruptRecovery \<in> set (pcs s)"
    then obtain i where "i < length (pcs s)" "pcs s ! i = Ended CorruptRecovery"
      by (auto simp: in_set_conv_nth)
    with p show False by (auto simp: pcs_ok_def)
  qed
  from 1 2 3 4 5 show ?thesis by blast
qed

theorem one_payload_per_version_witness:
  "ledger (commit_run race race_sched (empty_store race)) (''t'', 0) =
     Some \<lparr>temp_path = Temp ''t'' 0 0, complete = False\<rparr> \<and>
   objects (commit_run race race_sched (empty_store race)) (canonical (''t'', 0)) = Some ''A'' \<and>
   race ! 0 = ((''t'', 0), Commits ''A'') \<and>
   claimed_by (commit_run race race_sched (empty_store race)) (''t'', 0) 0 \<and>
   \<not> claimed_by (commit_run race race_sched (empty_store race)) (''t'', 0) 1 \<and>
   objects (commit_run race [(2, Reliable), (0, Lost), (0, Reliable), (0, Reliable)]
      (commit_run race race_sched (empty_store race))) (canonical (''t'', 0)) = Some ''A''"
proof -
  let ?s = "commit_run race race_sched (empty_store race)"
  have c: "claimed_by ?s (''t'', 0) 0"
    by (simp add: claimed_by_def holds_claim_def race_eval own_temp_def)
  from one_payload_per_version [of ?s race race_sched "[(2, Reliable), (0, Lost), (0, Reliable), (0, Reliable)]"]
  have "objects ?s (canonical (''t'', 0)) = Some ''A'' \<longrightarrow>
      objects (commit_run race [(2, Reliable), (0, Lost), (0, Reliable), (0, Reliable)] ?s)
        (canonical (''t'', 0)) = Some ''A''"
    and "claimed_by ?s (''t'', 0) 0 \<and> claimed_by ?s (''t'', 0) 1 \<longrightarrow> (0::nat) = 1"
    by blast+
  with c show ?thesis by (simp add: race_eval) (simp add: race_def)
qed




text \<open>
  Claim C4, amended. When the final count differs from \<^verbatim>\<open>num_rows\<close>, the script ends with
  an \<^verbatim>\<open>AssertionError\<close> that carries no message (exit status 1), whatever is scheduled
  later. The observed count is printed on the line before the assertion
  (\<^verbatim>\<open>Number of written rows:\<close>); the expected count appears only in the log block
  printed at the start. The count is taken once, and no throughput line is printed.
\<close>

theorem count_mismatch_raises_bare_assertion:
  assumes "harness w sched = Inr s" and "load_conf (os_environ w) = Inr c"
    and "main s = Conclude"
    and "count (uuid4 w) (table s) = Inr actual" and "int actual \<noteq> num_rows c"
  shows "harness w (sched @ Main # later) =
           Inr (s\<lparr>trace := trace s @
                    [(Main, Count (Inr actual)), (Main, Print (WrittenRows actual))],
                  main := Done (Raised (AssertionError []))\<rparr>) \<and>
         exit_status (Raised (AssertionError [])) = 1 \<and>
         final_counts (trace s) = [] \<and>
         summary_lines (trace s) = [] \<and>
         (Main, Print (TestLog c)) \<in> set (trace s)"
proof -
  from harness_inv [OF assms(1,2)] have tr: "inv_trace w c s"
    by (simp add: inv_def)
  from tr assms(3) have e: "final_counts (trace s) = []" "summary_lines (trace s) = []"
    by (simp_all add: inv_trace_def)
  from assms(1,2) have s: "s = run w c sched (startup w c)"
    by (simp add: harness_def)
  with assms(3) Conclude_has_path [of w c sched] obtain p where "delta_table_path c = Some p"
    by auto
  from log_in_trace [OF this, of w sched] s have l: "(Main, Print (TestLog c)) \<in> set (trace s)"
    by simp
  have "main_step w c s =
      s\<lparr>trace := trace s @ [(Main, Count (Inr actual)), (Main, Print (WrittenRows actual))],
        main := Done (Raised (AssertionError []))\<rparr>"
    using assms(3,4,5) by (simp add: main_step_def conclude_def)
  with conclude_step_halts [OF assms(1,2,3), of later] e l show ?thesis by simp
qed

theorem count_mismatch_raises_bare_assertion_witness:
  "main (two_writer_state\<lparr>table := Some []\<rparr>) = Conclude \<and>
   count (uuid4 lossy_world) (table (two_writer_state\<lparr>table := Some []\<rparr>)) = Inr 0 \<and>
   int 0 \<noteq> num_rows two_writer_conf \<and>
   harness lossy_world (to_line_135 @ [Main, Writer 0, Main]) =
     Inr (two_writer_state
           \<lparr>table := Some [],
            trace := trace two_writer_state @
              [(Main, Count (Inr 0)), (Main, Print (WrittenRows 0))],
            main := Done (Raised (AssertionError []))\<rparr>) \<and>
   (Main, Print (TestLog two_writer_conf)) \<in> set (trace two_writer_state)"
proof -
  have m: "main (two_writer_state\<lparr>table := Some []\<rparr>) = Conclude"
    by (simp add: two_writer_state_def)
  have k: "count (uuid4 lossy_world) (table (two_writer_state\<lparr>table := Some []\<rparr>)) = Inr 0"
    by (simp add: count_def)
  have n: "int 0 \<noteq> num_rows two_writer_conf"
    by (simp add: two_writer_conf_def)
  from count_mismatch_raises_bare_assertion [OF lossy_harness lossy_load m k n, of "[Writer 0, Main]"]
  show ?thesis using m k n by simp
qed

text \<open>
  Claim C4 as stated fails: against a store that loses the row, the final count is 0 and
  one transaction was expected; the assertion failure carries an empty message, so it
  reports neither the expected nor the observed count.
\<close>

theorem assertion_failure_has_no_message:
  "harness lossy_world (to_line_135 @ [Main]) =
     Inr (two_writer_state
       \<lparr>table := Some [],
        trace := trace two_writer_state @
          [(Main, Count (Inr 0)), (Main, Print (WrittenRows 0))],
        main := Done (Raised (AssertionError []))\<rparr>)"
  by (simp add: harness_append [OF lossy_harness lossy_load])
    (simp add: two_writer_state_def lossy_world_def two_writer_world_def two_writer_conf_def step_eval)

text \<open>
  Claim C5. The final count is never taken while writers are still committing or readers
  are still polling. In every state the script can reach: when the stop flag is set, no
  worker holds or awaits a task, no transaction has failed, and the transactions that
  returned are exactly \<open>0, ..., num_rows - 1\<close>, once each; when the main thread is about
  to take the final count (line 135), the stop flag is set, the pool is quiet, every reader
  thread has ended, and no final count has been taken yet; and once the trace holds a
  count of the main thread, every reader has ended, the pool is quiet, and no thread moves
  any more.
\<close>

theorem final_count_after_writers_and_readers:
  assumes "harness w sched = Inr s" and "load_conf (os_environ w) = Inr c"
  shows "(stop_reading s \<longrightarrow>
            quiet s \<and> failure s = None \<and> mset (committed s) = mset [0..<nat (num_rows c)]) \<and>
         (main s = Conclude \<longrightarrow>
            stop_reading s \<and> quiet s \<and> list_all finished (read_threads s) \<and>
            final_counts (trace s) = []) \<and>
         (final_counts (trace s) \<noteq> [] \<longrightarrow>
            stop_reading s \<and> quiet s \<and> list_all finished (read_threads s) \<and>
            (\<forall>later. run w c later s = s))"
proof -
  from harness_inv [OF assms] have
    p: "inv_pool s" and t: "inv_tasks c s" and r: "inv_readers c s" and tr: "inv_trace w c s"
    by (simp_all add: inv_def)
  have 1: "quiet s \<and> failure s = None \<and> mset (committed s) = mset [0..<nat (num_rows c)]"
    if "stop_reading s"
  proof -
    from p that have q: "quiet s" "failure s = None" by (simp_all add: inv_pool_def)
    with t that have "mset (committed s) + mset (pending s) = mset [0..<nat (num_rows c)]"
      by (simp add: inv_tasks_def)
    with q show ?thesis by (simp add: quiet_pending)
  qed
  have 2: "stop_reading s \<and> quiet s \<and> list_all finished (read_threads s) \<and>
            final_counts (trace s) = []" if "main s = Conclude"
  proof -
    from r that have "stop_reading s" "list_all finished (read_threads s)"
      unfolding inv_readers_def by blast+
    moreover from tr that have "final_counts (trace s) = []" by (simp add: inv_trace_def)
    ultimately show ?thesis using 1 by simp
  qed
  have 3: "stop_reading s \<and> quiet s \<and> list_all finished (read_threads s) \<and>
            (\<forall>later. run w c later s = s)" if "final_counts (trace s) \<noteq> []"
  proof -
    from tr that have d: "stop_reading s" "is_done (main s)" by (simp_all add: inv_trace_def)
    with r have f: "list_all finished (read_threads s)" unfolding inv_readers_def by blast
    from d 1 have "quiet s" by simp
    with d f show ?thesis by (simp add: run_halted)
  qed
  from 1 2 3 show ?thesis by blast
qed

theorem final_count_after_writers_and_readers_witness:
  "stop_reading demo_state \<and> main demo_state = Conclude \<and>
   quiet demo_state \<and> failure demo_state = None \<and>
   mset (committed demo_state) = mset [0..<nat (num_rows demo_conf)] \<and>
   list_all finished (read_threads demo_state) \<and>
   final_counts (trace demo_state) = []"
proof -
  have "stop_reading demo_state" "main demo_state = Conclude"
    by (simp_all add: demo_state_def)
  with final_count_after_writers_and_readers [OF demo_harness demo_load]
  show ?thesis by simp
qed

text \<open>
  Claim C6. There are never more reader threads than \<^verbatim>\<open>concurrent_readers\<close>, and
  exactly that many once the main thread has started them; a reader has returned only if
  the stop flag is set; and each step of a reader thread is a step of \<^verbatim>\<open>read_data\<close> on
  the stop flag and the table of that moment. A reader thread that finds the flag clear at its first \<open>m\<close>
  loop tests and set at the next one, and that loads the table \<open>rows j\<close> in iteration
  \<open>j\<close>, does exactly this and returns: for each \<open>j\<close> below \<open>m\<close>, in order, it counts
  the rows of \<open>rows j\<close> that carry the run identifier, prints that count as a
  \<^verbatim>\<open>Reading ... rows ...\<close> line, and sleeps one second. (An iteration is four steps
  of the thread: step \<open>4 * j\<close> is the loop test of iteration \<open>j\<close>, step \<open>4 * j + 1\<close> its
  \<^verbatim>\<open>count()\<close>.)
\<close>

theorem readers_poll_until_stopped:
  assumes "harness w sched = Inr s" and "load_conf (os_environ w) = Inr c"
    and "\<forall>j<m. \<not> fst (obs (4 * j))"
    and "fst (obs (4 * m))"
    and "\<forall>j<m. snd (obs (4 * j + 1)) = Some (rows j)"
  shows "length (read_threads s) \<le> nat (concurrent_readers c) \<and>
         (main s \<noteq> StartReaders \<and> \<not> is_done (main s) \<longrightarrow>
            length (read_threads s) = nat (concurrent_readers c)) \<and>
         (Returned \<in> set (read_threads s) \<longrightarrow> stop_reading s) \<and>
         (\<forall>i<length (read_threads s).
            read_threads (reader_step w i s) ! i =
              fst (read_data_step (stop_reading s) (count (uuid4 w) (table s)) (read_threads s ! i)) \<and>
            trace (reader_step w i s) =
              trace s @ map (Pair (Reader i))
                (snd (read_data_step (stop_reading s) (count (uuid4 w) (table s)) (read_threads s ! i)))) \<and>
         read_data w obs 0 Test [] =
           Some (Returned, concat (map (\<lambda>j. poll_actions (visible w (rows j))) [0..<m]))"
proof -
  from harness_inv [OF assms(1,2)] have r: "inv_readers c s"
    by (simp add: inv_def)
  have 0: "\<forall>i<length (read_threads s).
            read_threads (reader_step w i s) ! i =
              fst (read_data_step (stop_reading s) (count (uuid4 w) (table s)) (read_threads s ! i)) \<and>
            trace (reader_step w i s) =
              trace s @ map (Pair (Reader i))
                (snd (read_data_step (stop_reading s) (count (uuid4 w) (table s)) (read_threads s ! i)))"
    by (simp add: reader_step_def split: prod.splits)
  from r [unfolded inv_readers_def] have
    1: "length (read_threads s) \<le> nat (concurrent_readers c)" and
    2: "main s \<noteq> StartReaders \<and> \<not> is_done (main s) \<longrightarrow>
            length (read_threads s) = nat (concurrent_readers c)" and
    3: "Returned \<in> set (read_threads s) \<longrightarrow> stop_reading s"
    by blast+
  from read_data_loop [of m obs 0 rows w "[]"] assms(3,4,5)
  have "read_data w obs 0 Test [] =
           Some (Returned, concat (map (\<lambda>j. poll_actions (visible w (rows j))) [0..<m]))"
    by simp
  with 0 1 2 3 show ?thesis by blast
qed

theorem readers_poll_until_stopped_witness:
  "\<not> fst (stop_after_one_poll 0) \<and> fst (stop_after_one_poll 4) \<and>
   snd (stop_after_one_poll 1) = Some [(''run-1'', 7, 0)] \<and>
   length (read_threads demo_state) = nat (concurrent_readers demo_conf) \<and>
   read_data demo_world stop_after_one_poll 0 Test [] =
     Some (Returned, [Count (Inr 1), Print (ReadingRows 1), Sleep 1])"
proof -
  have 1: "\<forall>j<1. \<not> fst (stop_after_one_poll (4 * j))" "fst (stop_after_one_poll (4 * 1))"
    "\<forall>j<1. snd (stop_after_one_poll (4 * j + 1)) = Some ((\<lambda>j. [(''run-1'', 7, 0)]) j)"
    by (simp_all add: stop_after_one_poll_def)
  have 2: "main demo_state \<noteq> StartReaders \<and> \<not> is_done (main demo_state)"
    by (simp add: demo_state_def)
  have 3: "visible demo_world [(''run-1'', 7, 0)] = 1"
    by (simp add: visible_def demo_world_def)
  have 4: "\<not> fst (stop_after_one_poll 0)" "fst (stop_after_one_poll 4)"
    "snd (stop_after_one_poll 1) = Some [(''run-1'', 7, 0)]"
    by (simp_all add: stop_after_one_poll_def)
  from readers_poll_until_stopped [OF demo_harness demo_load 1] 2 3 4
  show ?thesis by (simp add: poll_actions_def)
qed

text \<open>
  Claim C7. A run never prints more than one throughput line, and none before the script
  has ended. A run that completes has printed exactly one, whose value is \<^verbatim>\<open>num_rows\<close>
  divided by the difference of the two clock readings (which is then not zero). The first
  reading is taken when no worker has taken a task yet, and the next thing the main
  thread does is \<^verbatim>\<open>pool.map\<close>; it is the start time used at line 139. When the main
  thread is at line 135, the final count is \<^verbatim>\<open>num_rows\<close> and the two clock readings
  differ, its next step prints that line, the only throughput line of the run, and ends
  the script, whatever is scheduled later; the script then completes exactly when the
  scan of the DynamoDB table returns an item. The quotient is taken over the rationals;
  rounding to two decimals is not modelled.
\<close>

theorem one_throughput_line:
  assumes "harness w sched = Inr s" and "load_conf (os_environ w) = Inr c"
  shows "length (summary_lines (trace s)) \<le> 1 \<and>
         (\<not> is_done (main s) \<longrightarrow> summary_lines (trace s) = []) \<and>
         (main s = Done Completed \<longrightarrow>
            summary_lines (trace s) = [of_int (num_rows c) / (time_end w - time_start w)] \<and>
            time_end w \<noteq> time_start w) \<and>
         (main s = StartClock \<longrightarrow>
            committed s = [] \<and> quiet s \<and>
            start_t (main_step w c s) = time_start w \<and> main (main_step w c s) = Submit) \<and>
         (main s = Conclude \<longrightarrow> start_t s = time_start w) \<and>
         (\<forall>actual.
            main s = Conclude \<and> count (uuid4 w) (table s) = Inr actual \<and>
            int actual = num_rows c \<and> time_end w \<noteq> time_start w \<longrightarrow>
              summary_lines (trace (main_step w c s)) =
                [of_int (num_rows c) / (time_end w - time_start w)] \<and>
              (Main, Print (TxPerSec (of_int (num_rows c) / (time_end w - time_start w))))
                \<in> set (trace (main_step w c s)) \<and>
              harness w (sched @ Main # later) = Inr (main_step w c s) \<and>
              (main (main_step w c s) = Done Completed) = (\<exists>i is. scan_items w = Inr (i # is)))"
proof -
  from harness_inv [OF assms] have
    p: "inv_pool s" and tr: "inv_trace w c s" and cl: "inv_clock w s"
    by (simp_all add: inv_def)
  from tr have 1: "length (summary_lines (trace s)) \<le> 1"
    and 2: "\<not> is_done (main s) \<longrightarrow> summary_lines (trace s) = []"
    and 3: "main s = Done Completed \<longrightarrow>
            summary_lines (trace s) = [of_int (num_rows c) / (time_end w - time_start w)] \<and>
            time_end w \<noteq> time_start w"
    by (simp_all add: inv_trace_def throughput_def)
  from p have 4: "main s = StartClock \<longrightarrow>
            committed s = [] \<and> quiet s \<and>
            start_t (main_step w c s) = time_start w \<and> main (main_step w c s) = Submit"
    by (simp add: inv_pool_def main_step_def)
  from cl have 5: "main s = Conclude \<longrightarrow> start_t s = time_start w"
    by (simp add: inv_clock_def)
  have 6: "summary_lines (trace (main_step w c s)) =
                [of_int (num_rows c) / (time_end w - time_start w)] \<and>
              (Main, Print (TxPerSec (of_int (num_rows c) / (time_end w - time_start w))))
                \<in> set (trace (main_step w c s)) \<and>
              harness w (sched @ Main # later) = Inr (main_step w c s) \<and>
              (main (main_step w c s) = Done Completed) = (\<exists>i is. scan_items w = Inr (i # is))"
    if h: "main s = Conclude \<and> count (uuid4 w) (table s) = Inr actual \<and>
            int actual = num_rows c \<and> time_end w \<noteq> time_start w" for actual
  proof -
    from h have m: "main s = Conclude" by simp
    from 2 m have e: "summary_lines (trace s) = []" by simp
    from 5 m have t0: "start_t s = time_start w" by simp
    from h e t0 have "summary_lines (trace (main_step w c s)) =
                [of_int (num_rows c) / (time_end w - time_start w)]"
      by (simp add: main_step_def conclude_def summary_lines_def Let_def
          split: sum.splits list.splits)
    moreover from h t0 have
      "(Main, Print (TxPerSec (of_int (num_rows c) / (time_end w - time_start w))))
                \<in> set (trace (main_step w c s))"
      by (simp add: main_step_def conclude_def Let_def split: sum.splits list.splits)
    moreover from h t0 have
      "(main (main_step w c s) = Done Completed) = (\<exists>i is. scan_items w = Inr (i # is))"
      by (simp add: main_step_def conclude_def Let_def split: sum.splits list.splits)
    moreover note conclude_step_halts [OF assms m, of later]
    ultimately show ?thesis by blast
  qed
  from 1 2 3 4 5 6 show ?thesis by blast
qed

theorem one_throughput_line_witness:
  "main demo_state = Conclude \<and>
   count (uuid4 demo_world) (table demo_state) = Inr 1 \<and>
   int 1 = num_rows demo_conf \<and>
   time_end demo_world \<noteq> time_start demo_world \<and>
   summary_lines (trace demo_state) = [] \<and>
   summary_lines (trace (main_step demo_world demo_conf demo_state)) = [1 / 2] \<and>
   (Main, Print (TxPerSec (1 / 2))) \<in> set (trace (main_step demo_world demo_conf demo_state)) \<and>
   main (main_step demo_world demo_conf demo_state) = Done Completed \<and>
   harness demo_world (demo_sched @ [Main]) = Inr (main_step demo_world demo_conf demo_state)"
proof -
  have 1: "main demo_state = Conclude" "count (uuid4 demo_world) (table demo_state) = Inr 1"
    "int 1 = num_rows demo_conf" "time_end demo_world \<noteq> time_start demo_world"
    "\<not> is_done (main demo_state)"
    by (simp_all add: demo_state_def demo_world_def demo_conf_def count_def)
  have 2: "of_int (num_rows demo_conf) / (time_end demo_world - time_start demo_world) = (1 / 2 :: rat)"
    "\<exists>i is. scan_items demo_world = Inr (i # is)"
    by (simp_all add: demo_conf_def demo_world_def)
  from one_throughput_line [OF demo_harness demo_load, of "[]"] 1 2
  show ?thesis by simp
qed

text \<open>
  Claim C8, amended. When \<^verbatim>\<open>DELTA_TABLE_PATH\<close> is unset and each of
  \<^verbatim>\<open>DELTA_CONCURRENT_WRITERS\<close>, \<^verbatim>\<open>DELTA_CONCURRENT_READERS\<close> and \<^verbatim>\<open>DELTA_NUM_ROWS\<close>
  is unset or holds an integer literal, then under every schedule the script prints the
  skip message and exits with status 0; it creates no session, starts no thread, and
  neither writes nor reads the table.
\<close>

theorem skip_without_table_path:
  assumes "os_environ w ''DELTA_TABLE_PATH'' = None"
    and "int_or_unset (os_environ w) ''DELTA_CONCURRENT_WRITERS''"
    and "int_or_unset (os_environ w) ''DELTA_CONCURRENT_READERS''"
    and "int_or_unset (os_environ w) ''DELTA_NUM_ROWS''"
  shows "harness w sched = Inr (skip_state w) \<and> exit_status (SysExit 0) = 0"
proof -
  from load_conf_ok [OF assms(2,3,4)] assms(1) obtain c
    where c: "load_conf (os_environ w) = Inr c" "delta_table_path c = None"
    by auto
  have "startup w c = skip_state w"
    by (simp add: startup_def skip_state_def c)
  with startup_skip [OF c(2), of w sched] c(1) show ?thesis
    by (simp add: harness_def)
qed

theorem skip_without_table_path_witness:
  "os_environ no_path_world ''DELTA_TABLE_PATH'' = None \<and>
   int_or_unset (os_environ no_path_world) ''DELTA_NUM_ROWS'' \<and>
   harness no_path_world [Main, Reader 0, Writer 0, Main] = Inr (skip_state no_path_world) \<and>
   trace (skip_state no_path_world) = [(Main, Print SkipMessage)]"
proof -
  have 1: "os_environ no_path_world ''DELTA_TABLE_PATH'' = None"
    by (simp add: no_path_world_def)
  have 2: "int_or_unset (os_environ no_path_world) ''DELTA_CONCURRENT_WRITERS''"
    "int_or_unset (os_environ no_path_world) ''DELTA_CONCURRENT_READERS''"
    "int_or_unset (os_environ no_path_world) ''DELTA_NUM_ROWS''"
    by (simp_all add: no_path_world_def int_or_unset_def py_int_eval)
  from skip_without_table_path [OF 1 2, of "[Main, Reader 0, Writer 0, Main]"] 1 2
  show ?thesis by (simp add: skip_state_def)
qed

text \<open>
  Claim C8 as stated fails: with \<^verbatim>\<open>DELTA_TABLE_PATH\<close> unset and
  \<^verbatim>\<open>DELTA_CONCURRENT_WRITERS=abc\<close>, line 47 raises \<^verbatim>\<open>ValueError\<close> before the test of
  line 57; nothing is printed and the exit status is not 0.
\<close>

theorem value_error_before_skip:
  "os_environ bad_int_world ''DELTA_TABLE_PATH'' = None \<and>
   harness bad_int_world [Main] = Inl ValueError"
  by (simp add: bad_int_world_def harness_def load_conf_def int_environ_get_def py_int_eval)

text \<open>
  Claim C9. Against a store that appends as it should, and a run identifier that no row
  of the table carries yet: the start of the script writes once, an empty list of rows;
  after it the table exists and holds the rows it held before (none when it was absent),
  and the count for the run identifier is 0. In every state the script reaches, the table
  holds those rows followed by one row for each transaction that has returned, and the
  count for the run identifier is the number of those transactions.
\<close>

theorem table_creation_adds_no_rows:
  assumes "save w = delta_append" and "load_conf (os_environ w) = Inr c"
    and "delta_table_path c = Some p" and "fresh w" and "harness w sched = Inr s"
  shows "trace (startup w c) = [(Main, Print (TestLog c)), (Main, GetOrCreate c), (Main, Save [])] \<and>
         table (startup w c) = Some (rows_of (initial_table w)) \<and>
         committed (startup w c) = [] \<and>
         count (uuid4 w) (table (startup w c)) = Inr 0 \<and>
         table s = Some (rows_of (initial_table w) @ map (tx_row w) (committed s)) \<and>
         count (uuid4 w) (table s) = Inr (length (committed s))"
proof -
  have st: "trace (startup w c) = [(Main, Print (TestLog c)), (Main, GetOrCreate c), (Main, Save [])]"
    "table (startup w c) = Some (rows_of (initial_table w))" "committed (startup w c) = []"
    using assms(1,3) by (simp_all add: startup_def delta_append_def rows_of_def)
  then have "inv_table w (startup w c)" by (simp add: inv_table_def)
  then have "inv_table w (run w c sched (startup w c))"
    by (rule run_invariant) (rule inv_table_step [OF assms(1)])
  with assms(2,5) have t: "table s = Some (rows_of (initial_table w) @ map (tx_row w) (committed s))"
    by (simp add: harness_def inv_table_def)
  from count_fresh [OF assms(4), of "[]"] count_fresh [OF assms(4), of "committed s"] st t
  show ?thesis by simp
qed

theorem table_creation_adds_no_rows_witness:
  "save old_rows_world = delta_append \<and> fresh old_rows_world \<and>
   table (startup old_rows_world demo_conf) = Some [(''run-0'', 11, 0)] \<and>
   count (uuid4 old_rows_world) (table (startup old_rows_world demo_conf)) = Inr 0 \<and>
   count (uuid4 old_rows_world) (Some [(''run-0'', 11, 0), (''run-1'', 7, 0)]) = Inr 1"
proof -
  let ?s = "demo_state\<lparr>table := Some [(''run-0'', 11, 0), (''run-1'', 7, 0)]\<rparr>"
  have 1: "save old_rows_world = delta_append" "fresh old_rows_world"
    "delta_table_path demo_conf = Some ''s3a://test-bucket/delta-test/''"
    by (simp_all add: old_rows_world_def demo_world_def demo_conf_def fresh_def rows_of_def)
  have 2: "rows_of (initial_table old_rows_world) = [(''run-0'', 11, 0)]"
    by (simp add: old_rows_world_def rows_of_def)
  have 3: "table ?s = Some [(''run-0'', 11, 0), (''run-1'', 7, 0)]" "length (committed ?s) = 1"
    by (simp_all add: demo_state_def)
  from table_creation_adds_no_rows [OF 1(1) old_rows_load 1(3) 1(2) old_rows_harness]
  have "table (startup old_rows_world demo_conf) = Some (rows_of (initial_table old_rows_world))"
    "count (uuid4 old_rows_world) (table (startup old_rows_world demo_conf)) = Inr 0"
    "count (uuid4 old_rows_world) (table ?s) = Inr (length (committed ?s))"
    by blast+
  with 1 2 3 show ?thesis by simp
qed

text \<open>
  Claim C10. When \<^verbatim>\<open>DELTA_TABLE_PATH\<close> is set and the seven other variables are absent,
  the configuration is: 2 concurrent writers, 2 concurrent readers, 16 transactions, the
  store class \<^verbatim>\<open>io.delta.storage.DynamoDBLogStore\<close>, the ledger table
  \<^verbatim>\<open>delta_log_test\<close>, the region \<^verbatim>\<open>us-west-2\<close> and an empty error-rate
  configuration.
\<close>

theorem load_conf_defaults:
  assumes "env ''DELTA_TABLE_PATH'' = Some p"
    and "env ''DELTA_CONCURRENT_WRITERS'' = None"
    and "env ''DELTA_CONCURRENT_READERS'' = None"
    and "env ''DELTA_NUM_ROWS'' = None"
    and "env ''DELTA_STORAGE'' = None"
    and "env ''DELTA_DYNAMO_TABLE'' = None"
    and "env ''DELTA_DYNAMO_REGION'' = None"
    and "env ''DELTA_DYNAMO_ERROR_RATES'' = None"
  shows "load_conf env =
     Inr \<lparr> delta_table_path = Some p,
           concurrent_writers = 2,
           concurrent_readers = 2,
           num_rows = 16,
           delta_storage = ''io.delta.storage.DynamoDBLogStore'',
           dynamo_table_name = ''delta_log_test'',
           dynamo_region = ''us-west-2'',
           dynamo_error_rates = [] \<rparr>"
  using assms by (simp add: load_conf_def int_environ_get_def environ_get_def)

theorem load_conf_defaults_witness:
  "load_conf [''DELTA_TABLE_PATH'' \<mapsto> ''s3a://test-bucket/delta-test/''] =
     Inr \<lparr> delta_table_path = Some ''s3a://test-bucket/delta-test/'',
           concurrent_writers = 2,
           concurrent_readers = 2,
           num_rows = 16,
           delta_storage = ''io.delta.storage.DynamoDBLogStore'',
           dynamo_table_name = ''delta_log_test'',
           dynamo_region = ''us-west-2'',
           dynamo_error_rates = [] \<rparr>"
  using load_conf_defaults [of "[''DELTA_TABLE_PATH'' \<mapsto> ''s3a://test-bucket/delta-test/'']"
      "''s3a://test-bucket/delta-test/''"]
  by simp

end
